theory Spec2Isabelle
  imports Main
begin

section \<open>qxl.datagrid.source.tree.TreeDataSource\<close>

text \<open>
  The class keeps a flat array of row objects for the visible part of a tree, a
  dictionary from a node's hash code to its row object, and a queue of functions
  that change the two. Row objects are JavaScript objects: the array, the
  dictionary and the \<^verbatim>\<open>childRowMetas\<close> arrays all hold references to them,
  and \<^verbatim>\<open>indexOf\<close> and \<^verbatim>\<open>qx.lang.Array.remove\<close> compare
  references. The model therefore keeps the row objects in an explicit store and
  lets every other structure hold references (positions in the store).
\<close>

subsection \<open>Data\<close>

text \<open>
  A node is identified by its hash code (\<^verbatim>\<open>toHashCode()\<close> is unique per
  qooxdoo object), a row object by its position in the store, a children change
  binding by the order of its creation.
\<close>

type_synonym node = nat
type_synonym ref = nat
type_synonym binding = nat

text \<open>
  The row object of \<^verbatim>\<open>__createRowMetaData\<close>. \<open>None\<close> stands for
  \<^verbatim>\<open>undefined\<close> or for a deleted property; the node of a row is whatever
  \<^verbatim>\<open>getItem\<close> returned, \<^verbatim>\<open>null\<close> included.
\<close>

record RowMetaData =
  node :: "node option"
  level :: int
  canHaveChildren :: "bool option"
  childrenChangeBinding :: "binding option"
  childRowMetas :: "ref list option"

text \<open>The errors the class throws, and the TypeError of reading a property of
  \<^verbatim>\<open>undefined\<close> or \<^verbatim>\<open>null\<close>.\<close>

datatype error =
    RootMustBeAbleToHaveChildren
  | CannotFindInRows node
  | CannotFindNodeInTree
  | TypeError

text \<open>
  The node inspector is supplied by the caller. \<open>insp_canHaveChildren\<close> and
  \<open>insp_getChildrenOf\<close> stand for the methods of the inspector that
  \<^verbatim>\<open>getNodeInspectorFactory()(node)\<close> returns, \<open>insp_getParentOf\<close> for
  the method of the inspector that \<^verbatim>\<open>getNodeInspectorFactory()()\<close> returns
  (\<^verbatim>\<open>revealNode\<close> calls the factory without a node). The calls are taken
  to return and to have no effect on the data source. A child list may hold
  \<^verbatim>\<open>null\<close> entries.
\<close>

record inspector =
  insp_canHaveChildren :: "node option \<Rightarrow> bool"
  insp_getChildrenOf :: "node \<Rightarrow> node option list"
  insp_getParentOf :: "node \<Rightarrow> node option"

text \<open>
  The fields a queued function works on: the row array, the dictionary, the store
  of row objects, the bindings created so far (each with the node it listens to)
  and disposed so far, and the row counts of the \<^verbatim>\<open>changeSize\<close> events
  fired (the column count of \<^verbatim>\<open>getSize()\<close> is always 1).
\<close>

record projection =
  uu_rowMetaDatas :: "ref list"
  uu_rowMetaDataByNode :: "node \<rightharpoonup> ref"
  objects :: "RowMetaData list"
  bindingsCreated :: "node list"
  bindingsDisposed :: "binding list"
  changeSize :: "nat list"

text \<open>The functions the class itself passes to \<^verbatim>\<open>queue\<close>, by the method
  that builds them.\<close>

datatype task =
    ApplyRootFn node
  | ExpandNodeFn node
  | CollapseNodeFn node
  | RefreshNodeChildrenFn node
  | RevealNodeFn node

text \<open>
  The data source: the fields above, the queue, and the promise that
  \<^verbatim>\<open>flushQueue\<close> creates (\<open>None\<close> is \<^verbatim>\<open>null\<close>; the promise is
  represented by the calls suspended on it).
\<close>

record tds =
  proj :: projection
  uu_queue :: "task list"
  uu_promiseQueueEmpty :: "nat list option"

definition construct :: tds where
  "construct =
     \<lparr>proj = \<lparr>uu_rowMetaDatas = [], uu_rowMetaDataByNode = Map.empty, objects = [],
              bindingsCreated = [], bindingsDisposed = [], changeSize = []\<rparr>,
      uu_queue = [], uu_promiseQueueEmpty = None\<rparr>"

datatype Position = Position int int

datatype nodeState = NodeState int string

subsection \<open>Array helpers\<close>

text \<open>\<^verbatim>\<open>Array.prototype.indexOf\<close>: the first position, or -1.\<close>

fun indexOf :: "'a list \<Rightarrow> 'a \<Rightarrow> int" where
  "indexOf [] x = - 1"
| "indexOf (y # ys) x =
     (if y = x then 0 else (let i = indexOf ys x in if i = - 1 then - 1 else i + 1))"

text \<open>\<^verbatim>\<open>slice(0, e)\<close> and \<^verbatim>\<open>slice(b)\<close> for \<open>0 \<le> e\<close> and \<open>0 \<le> b\<close>.\<close>

definition slice_to :: "'a list \<Rightarrow> int \<Rightarrow> 'a list" where
  "slice_to xs e = take (nat e) xs"

definition slice_from :: "'a list \<Rightarrow> int \<Rightarrow> 'a list" where
  "slice_from xs b = drop (nat b) xs"

subsection \<open>Row objects\<close>

definition setRow :: "ref \<Rightarrow> (RowMetaData \<Rightarrow> RowMetaData) \<Rightarrow> projection \<Rightarrow> projection" where
  "setRow r f p = p\<lparr>objects := (objects p)[r := f (objects p ! r)]\<rparr>"

definition getSize :: "projection \<Rightarrow> Position" where
  "getSize p = Position (int (length (uu_rowMetaDatas p))) 1"

definition fireChangeSize :: "projection \<Rightarrow> projection" where
  "fireChangeSize p = p\<lparr>changeSize := changeSize p @ [length (uu_rowMetaDatas p)]\<rparr>"

definition uu_createRowMetaData :: "node option \<Rightarrow> int \<Rightarrow> projection \<Rightarrow> ref \<times> projection" where
  "uu_createRowMetaData n l p =
     (length (objects p),
      p\<lparr>objects := objects p @
          [\<lparr>node = n, level = l, canHaveChildren = None,
            childrenChangeBinding = None, childRowMetas = None\<rparr>]\<rparr>)"

definition createChildrenChangeBinding :: "node \<Rightarrow> projection \<Rightarrow> binding \<times> projection" where
  "createChildrenChangeBinding n p =
     (length (bindingsCreated p), p\<lparr>bindingsCreated := bindingsCreated p @ [n]\<rparr>)"

text \<open>
  What \<^verbatim>\<open>__disposeRowMetaData\<close> is handed: a row object, or a property
  name (the loop variable of a \<^verbatim>\<open>for ... in\<close>). A property name is a
  string and has no \<^verbatim>\<open>childrenChangeBinding\<close>.
\<close>

datatype jsarg = RowObject ref | PropertyName nat

fun uu_disposeRowMetaData :: "jsarg \<Rightarrow> projection \<Rightarrow> projection" where
  "uu_disposeRowMetaData (PropertyName k) p = p"
| "uu_disposeRowMetaData (RowObject r) p =
     (case childrenChangeBinding (objects p ! r) of
        None \<Rightarrow> p
      | Some b \<Rightarrow>
          setRow r (\<lambda>m. m\<lparr>childrenChangeBinding := None\<rparr>)
            (p\<lparr>bindingsDisposed := bindingsDisposed p @ [b]\<rparr>))"

definition for_in :: "'a list \<Rightarrow> jsarg list" where
  "for_in xs = map PropertyName [0..<length xs]"

definition u_getNodeMetaData :: "projection \<Rightarrow> node \<Rightarrow> ref option" where
  "u_getNodeMetaData p n = uu_rowMetaDataByNode p n"

subsection \<open>Inserting the rows of the root's children\<close>

text \<open>The loop of \<^verbatim>\<open>_insertChildRows\<close> over the rest of the child list; \<open>rm\<close>
  is the row object of the parent.\<close>

fun insertChildRows_loop ::
  "inspector \<Rightarrow> ref \<Rightarrow> node option list \<Rightarrow> projection \<Rightarrow> (error + unit) \<times> projection" where
  "insertChildRows_loop insp rm [] p = (Inr (), p)"
| "insertChildRows_loop insp rm (c # cs) p =
     (let (cr, p1) = uu_createRowMetaData c 0 p;
          p2 = setRow cr (\<lambda>m. m\<lparr>canHaveChildren := Some (insp_canHaveChildren insp c)\<rparr>) p1;
          p3 = p2\<lparr>uu_rowMetaDatas := uu_rowMetaDatas p2 @ [cr]\<rparr>
      in case c of
           None \<Rightarrow> (Inl TypeError, p3)
         | Some n \<Rightarrow>
             (let p4 = p3\<lparr>uu_rowMetaDataByNode := (uu_rowMetaDataByNode p3)(n \<mapsto> cr)\<rparr>
              in case childRowMetas (objects p4 ! rm) of
                   None \<Rightarrow> (Inl TypeError, p4)
                 | Some rs \<Rightarrow>
                     insertChildRows_loop insp rm cs
                       (setRow rm (\<lambda>m. m\<lparr>childRowMetas := Some (rs @ [cr])\<rparr>) p4)))"

definition u_insertChildRows :: "inspector \<Rightarrow> node \<Rightarrow> projection \<Rightarrow> (error + unit) \<times> projection" where
  "u_insertChildRows insp n p =
     (case u_getNodeMetaData p n of
        None \<Rightarrow> (Inl TypeError, p)
      | Some rm \<Rightarrow>
          (let p1 = setRow rm (\<lambda>m. m\<lparr>childRowMetas := Some []\<rparr>) p;
               p2 = p1\<lparr>uu_rowMetaDataByNode := (uu_rowMetaDataByNode p1)(n \<mapsto> rm)\<rparr>
           in case insertChildRows_loop insp rm (insp_getChildrenOf insp n) p2 of
                (Inl e, p3) \<Rightarrow> (Inl e, p3)
              | (Inr u, p3) \<Rightarrow> (Inr (), fireChangeSize p3)))"

text \<open>The function that \<^verbatim>\<open>__applyRoot\<close> queues for a root that is not null.\<close>

definition applyRootFn :: "inspector \<Rightarrow> node \<Rightarrow> projection \<Rightarrow> (error + unit) \<times> projection" where
  "applyRootFn insp v p =
     (let (row, p1) = uu_createRowMetaData (Some v) (- 1) p;
          p2 = p1\<lparr>uu_rowMetaDataByNode := (uu_rowMetaDataByNode p1)(v \<mapsto> row)\<rparr>;
          p3 = setRow row (\<lambda>m. m\<lparr>canHaveChildren := Some (insp_canHaveChildren insp (Some v))\<rparr>) p2
      in if canHaveChildren (objects p3 ! row) \<noteq> Some True
         then (Inl RootMustBeAbleToHaveChildren, p3)
         else
           (let p4 = (case childrenChangeBinding (objects p3 ! row) of
                        Some b \<Rightarrow> p3
                      | None \<Rightarrow>
                          (let (b, q) = createChildrenChangeBinding v p3
                           in setRow row (\<lambda>m. m\<lparr>childrenChangeBinding := Some b\<rparr>) q))
            in u_insertChildRows insp v p4))"

subsection \<open>Expanding\<close>

text \<open>The loop of \<^verbatim>\<open>_expandNode\<close> over the children: a row object for every
  child that is not null, entered in the dictionary; the child rows so far are
  \<open>acc\<close>.\<close>

fun expandNode_loop ::
  "inspector \<Rightarrow> int \<Rightarrow> node option list \<Rightarrow> ref list \<Rightarrow> projection \<Rightarrow> ref list \<times> projection" where
  "expandNode_loop insp lv [] acc p = (acc, p)"
| "expandNode_loop insp lv (None # cs) acc p = expandNode_loop insp lv cs acc p"
| "expandNode_loop insp lv (Some c # cs) acc p =
     (let (cr, p1) = uu_createRowMetaData (Some c) (lv + 1) p;
          p2 = setRow cr (\<lambda>m. m\<lparr>canHaveChildren := Some (insp_canHaveChildren insp (Some c))\<rparr>) p1;
          p3 = p2\<lparr>uu_rowMetaDataByNode := (uu_rowMetaDataByNode p2)(c \<mapsto> cr)\<rparr>
      in expandNode_loop insp lv cs (acc @ [cr]) p3)"

definition u_expandNode :: "inspector \<Rightarrow> node \<Rightarrow> projection \<Rightarrow> (error + unit) \<times> projection" where
  "u_expandNode insp n p =
     (let children = insp_getChildrenOf insp n
      in case u_getNodeMetaData p n of
           None \<Rightarrow> (Inl (CannotFindInRows n), p)
         | Some rm \<Rightarrow>
             if childRowMetas (objects p ! rm) \<noteq> None \<or> canHaveChildren (objects p ! rm) \<noteq> Some True
             then (Inr (), p)
             else
               (let (b, p1) = createChildrenChangeBinding n p;
                    p2 = setRow rm (\<lambda>m. m\<lparr>childrenChangeBinding := Some b\<rparr>) p1;
                    parentRowIndex = indexOf (uu_rowMetaDatas p2) rm;
                    (childRows, p3) = expandNode_loop insp (level (objects p2 ! rm)) children [] p2;
                    before = slice_to (uu_rowMetaDatas p3) (parentRowIndex + 1);
                    after = (if parentRowIndex = int (length (uu_rowMetaDatas p3)) - 1 then []
                             else slice_from (uu_rowMetaDatas p3) (parentRowIndex + 1));
                    p4 = setRow rm (\<lambda>m. m\<lparr>childRowMetas := Some childRows\<rparr>) p3;
                    p5 = p4\<lparr>uu_rowMetaDatas := before @ childRows @ after\<rparr>
                in (Inr (), fireChangeSize p5)))"

subsection \<open>Collapsing\<close>

text \<open>
  The inner function of \<^verbatim>\<open>_removeChildRows\<close> recurses along the
  \<^verbatim>\<open>childRowMetas\<close> of the row objects, with nothing that bounds it. The model
  counts the depth down from \<open>k\<close>; \<open>None\<close> says that the depth \<open>k\<close> was not
  enough. \<open>removeChildRows_each\<close> is the body of the loop over the children of one
  row, \<open>rec\<close> the recursive call; the accumulator is the data and \<^verbatim>\<open>toRemove\<close>.
\<close>

fun removeChildRows_each ::
  "(ref \<Rightarrow> projection \<times> ref list \<Rightarrow> (projection \<times> ref list) option) \<Rightarrow>
   ref list \<Rightarrow> projection \<times> ref list \<Rightarrow> (projection \<times> ref list) option" where
  "removeChildRows_each rec [] acc = Some acc"
| "removeChildRows_each rec (c # cs) acc =
     (case rec c (fst acc, snd acc @ [c]) of
        None \<Rightarrow> None
      | Some (p1, toRemove) \<Rightarrow>
          removeChildRows_each rec cs (uu_disposeRowMetaData (RowObject c) p1, toRemove))"

primrec removeChildRows_rec ::
  "nat \<Rightarrow> ref \<Rightarrow> projection \<times> ref list \<Rightarrow> (projection \<times> ref list) option" where
  "removeChildRows_rec 0 r acc = None"
| "removeChildRows_rec (Suc k) r acc =
     (case childRowMetas (objects (fst acc) ! r) of
        None \<Rightarrow> Some acc
      | Some cs \<Rightarrow> removeChildRows_each (removeChildRows_rec k) cs acc)"

text \<open>The last loop of \<^verbatim>\<open>_removeChildRows\<close>: every collected row leaves the
  dictionary (under its node's hash code) and the row array.\<close>

fun removeChildRows_drop :: "ref list \<Rightarrow> projection \<Rightarrow> (error + unit) \<times> projection" where
  "removeChildRows_drop [] p = (Inr (), p)"
| "removeChildRows_drop (c # cs) p =
     (case node (objects p ! c) of
        None \<Rightarrow> (Inl TypeError, p)
      | Some n \<Rightarrow>
          removeChildRows_drop cs
            (p\<lparr>uu_rowMetaDataByNode := (uu_rowMetaDataByNode p)(n := None),
               uu_rowMetaDatas := remove1 c (uu_rowMetaDatas p)\<rparr>))"

text \<open>
  A chain of row objects that never meets a row twice is no longer than the
  store, so a recursion that is not done at depth \<open>length (objects p) + 1\<close> runs
  through a cycle of \<^verbatim>\<open>childRowMetas\<close> and does not return in the source
  either: the result \<open>None\<close>. Where every child row was created after its
  parent the depth is enough (lemma \<open>u_removeChildRows_returns\<close>).
\<close>

definition u_removeChildRows :: "ref \<Rightarrow> projection \<Rightarrow> ((error + unit) \<times> projection) option" where
  "u_removeChildRows rm p =
     (case removeChildRows_rec (Suc (length (objects p))) rm (p, []) of
        None \<Rightarrow> None
      | Some (p1, toRemove) \<Rightarrow>
          Some (removeChildRows_drop toRemove (setRow rm (\<lambda>m. m\<lparr>childRowMetas := None\<rparr>) p1)))"

definition u_collapseNode :: "node \<Rightarrow> projection \<Rightarrow> ((error + unit) \<times> projection) option" where
  "u_collapseNode n p =
     (case uu_rowMetaDataByNode p n of
        None \<Rightarrow> Some (Inl (CannotFindInRows n), p)
      | Some rm \<Rightarrow>
          if childRowMetas (objects p ! rm) = None then Some (Inr (), p)
          else
            (let p1 = (case childrenChangeBinding (objects p ! rm) of
                         None \<Rightarrow> p
                       | Some b \<Rightarrow>
                           setRow rm (\<lambda>m. m\<lparr>childrenChangeBinding := None\<rparr>)
                             (p\<lparr>bindingsDisposed := bindingsDisposed p @ [b]\<rparr>))
             in case u_removeChildRows rm p1 of
                  None \<Rightarrow> None
                | Some (Inl e, p2) \<Rightarrow> Some (Inl e, p2)
                | Some (Inr u, p2) \<Rightarrow> Some (Inr (), fireChangeSize p2)))"

text \<open>The function that \<^verbatim>\<open>refreshNodeChildren\<close> queues.\<close>

definition refreshNodeChildrenFn ::
  "inspector \<Rightarrow> node \<Rightarrow> projection \<Rightarrow> ((error + unit) \<times> projection) option" where
  "refreshNodeChildrenFn insp n p =
     (case u_collapseNode n p of
        None \<Rightarrow> None
      | Some (Inl e, p1) \<Rightarrow> Some (Inl e, p1)
      | Some (Inr u, p1) \<Rightarrow>
          (case u_expandNode insp n p1 of
             (Inl e, p2) \<Rightarrow> Some (Inl e, p2)
           | (Inr u, p2) \<Rightarrow> Some (Inr (), fireChangeSize p2)))"

subsection \<open>Revealing\<close>

text \<open>
  The \<^verbatim>\<open>while\<close> loop of \<^verbatim>\<open>getPathToNode\<close>: it runs as long as
  \<^verbatim>\<open>parent\<close> and its own parent are not null, and forever on a cycle of
  parents (the result \<open>None\<close>).
\<close>

partial_function (option) getPathToNode_loop ::
  "(node \<Rightarrow> node option) \<Rightarrow> node option \<Rightarrow> node list \<Rightarrow> node list option" where
  "getPathToNode_loop getParentOf parent path =
     (case parent of
        None \<Rightarrow> Some path
      | Some q \<Rightarrow>
          (case getParentOf q of
             None \<Rightarrow> Some path
           | Some g \<Rightarrow> getPathToNode_loop getParentOf (getParentOf q) (q # path)))"

declare getPathToNode_loop.simps [code]

definition getPathToNode :: "inspector \<Rightarrow> node \<Rightarrow> node list option" where
  "getPathToNode insp n = getPathToNode_loop (insp_getParentOf insp) (insp_getParentOf insp n) []"

text \<open>\<^verbatim>\<open>!ancestors\<close>: the path is a \<^verbatim>\<open>qx.data.Array\<close>, an object, and an object
  is never falsy, whatever it holds.\<close>

definition falsy_array :: "node list \<Rightarrow> bool" where
  "falsy_array xs = False"

fun revealNode_loop :: "inspector \<Rightarrow> node list \<Rightarrow> projection \<Rightarrow> (error + unit) \<times> projection" where
  "revealNode_loop insp [] p = (Inr (), p)"
| "revealNode_loop insp (a # as) p =
     (case u_expandNode insp a p of
        (Inl e, p1) \<Rightarrow> (Inl e, p1)
      | (Inr u, p1) \<Rightarrow> revealNode_loop insp as p1)"

definition revealNodeFn ::
  "inspector \<Rightarrow> node \<Rightarrow> projection \<Rightarrow> ((error + unit) \<times> projection) option" where
  "revealNodeFn insp n p =
     (case getPathToNode insp n of
        None \<Rightarrow> None
      | Some ancestors \<Rightarrow>
          if falsy_array ancestors then Some (Inl CannotFindNodeInTree, p)
          else Some (revealNode_loop insp ancestors p))"

subsection \<open>The queue\<close>

text \<open>Calling a queued function and awaiting what it returns.\<close>

fun call :: "inspector \<Rightarrow> task \<Rightarrow> projection \<Rightarrow> ((error + unit) \<times> projection) option" where
  "call insp (ApplyRootFn v) p = Some (applyRootFn insp v p)"
| "call insp (ExpandNodeFn n) p = Some (u_expandNode insp n p)"
| "call insp (CollapseNodeFn n) p = u_collapseNode n p"
| "call insp (RefreshNodeChildrenFn n) p = refreshNodeChildrenFn insp n p"
| "call insp (RevealNodeFn n) p = revealNodeFn insp n p"

text \<open>
  \<^verbatim>\<open>__executeNextQueue\<close>, run without anything else in between: an empty queue
  resolves and clears the promise; otherwise the first function is called and
  awaited, and only when it has returned is it shifted out and the next one run. A
  function that throws stays in the queue.
\<close>

function uu_executeNextQueue :: "inspector \<Rightarrow> tds \<Rightarrow> ((error + unit) \<times> tds) option" where
  "uu_executeNextQueue insp s =
     (case uu_queue s of
        [] \<Rightarrow> Some (Inr (), s\<lparr>uu_promiseQueueEmpty := None\<rparr>)
      | fn # rest \<Rightarrow>
          (case call insp fn (proj s) of
             None \<Rightarrow> None
           | Some (Inl e, p1) \<Rightarrow> Some (Inl e, s\<lparr>proj := p1\<rparr>)
           | Some (Inr u, p1) \<Rightarrow> uu_executeNextQueue insp (s\<lparr>proj := p1, uu_queue := rest\<rparr>)))"
  by pat_completeness auto
termination
  by (relation "measure (\<lambda>(insp, s). length (uu_queue s))") auto

definition queue :: "inspector \<Rightarrow> task \<Rightarrow> tds \<Rightarrow> ((error + unit) \<times> tds) option" where
  "queue insp fn s =
     (let s1 = s\<lparr>uu_queue := uu_queue s @ [fn]\<rparr>
      in if length (uu_queue s1) = 1 then uu_executeNextQueue insp s1 else Some (Inr (), s1))"

subsection \<open>The methods that queue\<close>

text \<open>
  \<^verbatim>\<open>__applyRoot(value, oldValue)\<close> is the apply method of the property
  \<^verbatim>\<open>root\<close>: \<^verbatim>\<open>setRoot(value)\<close> calls it with the new and the old
  root, and its result here is what the promise it returns settles with. The row
  array is emptied first, so the array that the branch for an old root then takes
  for the old rows is the empty one, and the loop over it is a
  \<^verbatim>\<open>for ... in\<close>. (\<^verbatim>\<open>_data\<close> belongs to the superclass and is not
  read here.)
\<close>

definition uu_applyRoot ::
  "inspector \<Rightarrow> node option \<Rightarrow> node option \<Rightarrow> tds \<Rightarrow> ((error + unit) \<times> tds) option" where
  "uu_applyRoot insp val oldValue s =
     (let p1 = (proj s)\<lparr>uu_rowMetaDatas := []\<rparr>;
          p2 = (case oldValue of
                  None \<Rightarrow> p1
                | Some old \<Rightarrow>
                    (let oldRowMetaDatas = uu_rowMetaDatas p1;
                         q = p1\<lparr>uu_rowMetaDataByNode := Map.empty, uu_rowMetaDatas := []\<rparr>
                     in fold uu_disposeRowMetaData (for_in oldRowMetaDatas) q));
          s2 = s\<lparr>proj := p2\<rparr>
      in case val of
           None \<Rightarrow> Some (Inr (), s2\<lparr>proj := fireChangeSize p2\<rparr>)
         | Some v \<Rightarrow>
             (case queue insp (ApplyRootFn v) s2 of
                None \<Rightarrow> None
              | Some (Inl e, s3) \<Rightarrow> Some (Inl e, s3)
              | Some (Inr u, s3) \<Rightarrow> Some (Inr (), s3\<lparr>proj := fireChangeSize (proj s3)\<rparr>)))"

definition expandNode :: "inspector \<Rightarrow> node \<Rightarrow> tds \<Rightarrow> ((error + unit) \<times> tds) option" where
  "expandNode insp n s = queue insp (ExpandNodeFn n) s"

definition collapseNode :: "inspector \<Rightarrow> node \<Rightarrow> tds \<Rightarrow> ((error + unit) \<times> tds) option" where
  "collapseNode insp n s = queue insp (CollapseNodeFn n) s"

definition refreshNodeChildren :: "inspector \<Rightarrow> node \<Rightarrow> tds \<Rightarrow> ((error + unit) \<times> tds) option" where
  "refreshNodeChildren insp n s = queue insp (RefreshNodeChildrenFn n) s"

definition revealNode :: "inspector \<Rightarrow> node \<Rightarrow> tds \<Rightarrow> ((error + unit) \<times> tds) option" where
  "revealNode insp n s = queue insp (RevealNodeFn n) s"

subsection \<open>The methods that read\<close>

definition getShownChildren :: "projection \<Rightarrow> node \<Rightarrow> error + node option list" where
  "getShownChildren p n =
     (case u_getNodeMetaData p n of
        None \<Rightarrow> Inl TypeError
      | Some rm \<Rightarrow>
          (case childRowMetas (objects p ! rm) of
             None \<Rightarrow> Inl TypeError
           | Some rs \<Rightarrow> Inr (map (\<lambda>md. node (objects p ! md)) rs)))"

definition getPositionOfModel :: "projection \<Rightarrow> node \<Rightarrow> Position option" where
  "getPositionOfModel p n =
     (case uu_rowMetaDataByNode p n of
        None \<Rightarrow> None
      | Some row \<Rightarrow> Some (Position (indexOf (uu_rowMetaDatas p) row) 0))"

definition getNodeStateFor :: "projection \<Rightarrow> node \<Rightarrow> nodeState option" where
  "getNodeStateFor p n =
     (case uu_rowMetaDataByNode p n of
        None \<Rightarrow> None
      | Some row \<Rightarrow>
          Some (NodeState (level (objects p ! row))
            (if canHaveChildren (objects p ! row) = Some True
             then (if childRowMetas (objects p ! row) \<noteq> None then ''open'' else ''closed'')
             else ''none'')))"

definition isAvailable :: "tds \<Rightarrow> bool" where
  "isAvailable s = (length (uu_queue s) = 0)"

text \<open>The rows as the grid sees them: the node and the level of each row object in
  the row array.\<close>

definition rowList :: "projection \<Rightarrow> (node option \<times> int) list" where
  "rowList p = map (\<lambda>r. (node (objects p ! r), level (objects p ! r))) (uu_rowMetaDatas p)"

subsection \<open>Waiting for the queue\<close>

text \<open>
  \<^verbatim>\<open>flushQueue\<close>, called by \<open>w\<close>: with a promise in place the call awaits it;
  with none and functions in the queue it creates the promise and returns; with
  none and an empty queue it returns. The result says whether the call has
  returned.
\<close>

definition flushQueue :: "nat \<Rightarrow> tds \<Rightarrow> bool \<times> tds" where
  "flushQueue w s =
     (case uu_promiseQueueEmpty s of
        Some waiting \<Rightarrow> (False, s\<lparr>uu_promiseQueueEmpty := Some (waiting @ [w])\<rparr>)
      | None \<Rightarrow>
          if length (uu_queue s) \<noteq> 0 then (True, s\<lparr>uu_promiseQueueEmpty := Some []\<rparr>)
          else (True, s))"

definition makeAvailable :: "nat \<Rightarrow> tds \<Rightarrow> bool \<times> tds" where
  "makeAvailable w s = flushQueue w s"

subsection \<open>Calls that overlap\<close>

text \<open>
  A call of \<^verbatim>\<open>queue\<close> that finds other functions in the queue returns while
  they are still there, so calls overlap. The run-time state adds to the object
  what JavaScript keeps of the suspended calls: the caller whose call of
  \<^verbatim>\<open>queue\<close> sits in \<^verbatim>\<open>__executeNextQueue\<close> awaiting the first function
  of the queue, and the calls that have settled, in order, each with its result.
  An event is a call of \<^verbatim>\<open>queue\<close> or of \<^verbatim>\<open>flushQueue\<close> by a numbered
  caller, or the awaited function settling. When the last function has settled,
  the call of \<^verbatim>\<open>queue\<close> settles and then the calls suspended on the promise
  of \<^verbatim>\<open>flushQueue\<close>.

  The field \<open>proj\<close> of \<open>this\<close> holds the data as the last settled function
  left them, and the whole work of the awaited function is applied to it when the
  function settles. The part of that function up to its first \<^verbatim>\<open>await\<close> has
  run as soon as the function was called, inside the call of \<^verbatim>\<open>queue\<close> or
  of \<^verbatim>\<open>__executeNextQueue\<close> that started it; \<open>dataNow\<close> below gives the
  data with that part applied. No other call changes the data in between.
\<close>

record runtime =
  this :: tds
  awaiting :: "nat option"
  settled :: "(nat \<times> (error + unit)) list"

datatype event = CallQueue nat task | Settle | CallFlushQueue nat

definition resolved :: "nat list \<Rightarrow> (nat \<times> (error + unit)) list" where
  "resolved ws = map (\<lambda>w. (w, Inr ())) ws"

fun step :: "inspector \<Rightarrow> event \<Rightarrow> runtime \<Rightarrow> runtime" where
  "step insp (CallQueue c fn) rt =
     (let s1 = (this rt)\<lparr>uu_queue := uu_queue (this rt) @ [fn]\<rparr>
      in if length (uu_queue s1) = 1 then rt\<lparr>this := s1, awaiting := Some c\<rparr>
         else rt\<lparr>this := s1, settled := settled rt @ [(c, Inr ())]\<rparr>)"
| "step insp Settle rt =
     (case awaiting rt of
        None \<Rightarrow> rt
      | Some c \<Rightarrow>
          (case uu_queue (this rt) of
             [] \<Rightarrow> rt
           | fn # rest \<Rightarrow>
               (case call insp fn (proj (this rt)) of
                  None \<Rightarrow> rt
                | Some (Inl e, p1) \<Rightarrow>
                    rt\<lparr>this := (this rt)\<lparr>proj := p1\<rparr>, awaiting := None,
                       settled := settled rt @ [(c, Inl e)]\<rparr>
                | Some (Inr u, p1) \<Rightarrow>
                    (let s1 = (this rt)\<lparr>proj := p1, uu_queue := rest\<rparr>
                     in if rest = []
                        then rt\<lparr>this := s1\<lparr>uu_promiseQueueEmpty := None\<rparr>, awaiting := None,
                                settled := settled rt @ [(c, Inr ())] @
                                  resolved (case uu_promiseQueueEmpty s1 of None \<Rightarrow> [] | Some ws \<Rightarrow> ws)\<rparr>
                        else rt\<lparr>this := s1\<rparr>))))"
| "step insp (CallFlushQueue w) rt =
     (case flushQueue w (this rt) of
        (True, s1) \<Rightarrow> rt\<lparr>this := s1, settled := settled rt @ [(w, Inr ())]\<rparr>
      | (False, s1) \<Rightarrow> rt\<lparr>this := s1\<rparr>)"

definition run :: "inspector \<Rightarrow> event list \<Rightarrow> runtime \<Rightarrow> runtime" where
  "run insp evs rt = fold (step insp) evs rt"

definition start :: "tds \<Rightarrow> runtime" where
  "start s = \<lparr>this = s, awaiting = None, settled = []\<rparr>"

text \<open>
  The part of the function that \<^verbatim>\<open>__applyRoot\<close> queues up to its first
  \<^verbatim>\<open>await\<close> (that of \<^verbatim>\<open>getChildrenOf\<close> in \<^verbatim>\<open>_insertChildRows\<close>),
  with the row object of the root as its result, and the rest of it.
\<close>

definition applyRootFn_begin :: "inspector \<Rightarrow> node \<Rightarrow> projection \<Rightarrow> (error + ref) \<times> projection" where
  "applyRootFn_begin insp v p =
     (let (row, p1) = uu_createRowMetaData (Some v) (- 1) p;
          p2 = p1\<lparr>uu_rowMetaDataByNode := (uu_rowMetaDataByNode p1)(v \<mapsto> row)\<rparr>;
          p3 = setRow row (\<lambda>m. m\<lparr>canHaveChildren := Some (insp_canHaveChildren insp (Some v))\<rparr>) p2
      in if canHaveChildren (objects p3 ! row) \<noteq> Some True
         then (Inl RootMustBeAbleToHaveChildren, p3)
         else
           (let p4 = (case childrenChangeBinding (objects p3 ! row) of
                        Some b \<Rightarrow> p3
                      | None \<Rightarrow>
                          (let (b, q) = createChildrenChangeBinding v p3
                           in setRow row (\<lambda>m. m\<lparr>childrenChangeBinding := Some b\<rparr>) q))
            in case u_getNodeMetaData p4 v of
                 None \<Rightarrow> (Inl TypeError, p4)
               | Some rm \<Rightarrow>
                   (let p5 = setRow rm (\<lambda>m. m\<lparr>childRowMetas := Some []\<rparr>) p4
                    in (Inr rm, p5\<lparr>uu_rowMetaDataByNode := (uu_rowMetaDataByNode p5)(v \<mapsto> rm)\<rparr>))))"

definition applyRootFn_rest ::
  "inspector \<Rightarrow> node \<Rightarrow> ref \<Rightarrow> projection \<Rightarrow> (error + unit) \<times> projection" where
  "applyRootFn_rest insp v rm p =
     (case insertChildRows_loop insp rm (insp_getChildrenOf insp v) p of
        (Inl e, p3) \<Rightarrow> (Inl e, p3)
      | (Inr u, p3) \<Rightarrow> (Inr (), fireChangeSize p3))"



subsection \<open>A small tree\<close>

text \<open>
  The tree used for the concrete runs below: the root 10 has the children 11 and
  12, node 11 has the children 13 and 14; 10 and 11 can have children; node 99 is
  in no tree (it has no parent).
\<close>

definition ex_insp :: inspector where
  "ex_insp =
     \<lparr>insp_canHaveChildren = (\<lambda>n. n = Some 10 \<or> n = Some 11),
      insp_getChildrenOf =
        (\<lambda>n. if n = 10 then [Some 11, Some 12] else if n = 11 then [Some 13, Some 14] else []),
      insp_getParentOf =
        (\<lambda>n. if n = 11 \<or> n = 12 then Some 10 else if n = 13 \<or> n = 14 then Some 11 else None)\<rparr>"

text \<open>The same tree with a root that cannot have children.\<close>

definition ex_insp_leaf :: inspector where
  "ex_insp_leaf = ex_insp\<lparr>insp_canHaveChildren := (\<lambda>n. False)\<rparr>"

definition mkRow :: "node \<Rightarrow> int \<Rightarrow> bool \<Rightarrow> binding option \<Rightarrow> ref list option \<Rightarrow> RowMetaData" where
  "mkRow n l c b k =
     \<lparr>node = Some n, level = l, canHaveChildren = Some c, childrenChangeBinding = b,
      childRowMetas = k\<rparr>"

text \<open>The data source after the root 10 was applied to a new data source.\<close>

definition ex_rooted :: tds where
  "ex_rooted =
     \<lparr>proj = \<lparr>uu_rowMetaDatas = [1, 2],
              uu_rowMetaDataByNode = [10 \<mapsto> 0, 11 \<mapsto> 1, 12 \<mapsto> 2],
              objects = [mkRow 10 (- 1) True (Some 0) (Some [1, 2]),
                         mkRow 11 0 True None None, mkRow 12 0 False None None],
              bindingsCreated = [10], bindingsDisposed = [], changeSize = [2, 2]\<rparr>,
      uu_queue = [], uu_promiseQueueEmpty = None\<rparr>"

text \<open>The data source after node 11 was expanded next.\<close>

definition ex_expanded :: tds where
  "ex_expanded =
     \<lparr>proj = \<lparr>uu_rowMetaDatas = [1, 3, 4, 2],
              uu_rowMetaDataByNode = [10 \<mapsto> 0, 11 \<mapsto> 1, 12 \<mapsto> 2, 13 \<mapsto> 3, 14 \<mapsto> 4],
              objects = [mkRow 10 (- 1) True (Some 0) (Some [1, 2]),
                         mkRow 11 0 True (Some 1) (Some [3, 4]),
                         mkRow 12 0 False None None,
                         mkRow 13 1 False None None, mkRow 14 1 False None None],
              bindingsCreated = [10, 11], bindingsDisposed = [], changeSize = [2, 2, 4]\<rparr>,
      uu_queue = [], uu_promiseQueueEmpty = None\<rparr>"


text \<open>The data source after a root that cannot have children was applied to a new
  data source: the function is still in the queue.\<close>

definition ex_rejected :: tds where
  "ex_rejected =
     \<lparr>proj = \<lparr>uu_rowMetaDatas = [], uu_rowMetaDataByNode = [10 \<mapsto> 0],
              objects = [mkRow 10 (- 1) False None None],
              bindingsCreated = [], bindingsDisposed = [], changeSize = []\<rparr>,
      uu_queue = [ApplyRootFn 10], uu_promiseQueueEmpty = None\<rparr>"

subsection \<open>The result of expanding, in closed form\<close>

text \<open>The entries of a child list that are not null.\<close>

fun nonNull :: "'a option list \<Rightarrow> 'a list" where
  "nonNull [] = []"
| "nonNull (None # xs) = nonNull xs"
| "nonNull (Some x # xs) = x # nonNull xs"

text \<open>The row objects that \<^verbatim>\<open>_expandNode\<close> creates for the children \<open>ns\<close> of a
  row at level \<open>lv\<close>.\<close>

definition newRows :: "inspector \<Rightarrow> int \<Rightarrow> node list \<Rightarrow> RowMetaData list" where
  "newRows insp lv ns =
     map (\<lambda>c. mkRow c (lv + 1) (insp_canHaveChildren insp (Some c)) None None) ns"

text \<open>
  The data after \<^verbatim>\<open>_expandNode\<close> has expanded a collapsed node \<open>n\<close> with the
  row object \<open>rm\<close> (lemma \<open>u_expandNode_collapsed\<close> below): the new row objects
  stand at the end of the store, their references are spliced into the row array
  behind the first occurrence of \<open>rm\<close>.
\<close>

definition expanded :: "inspector \<Rightarrow> node \<Rightarrow> ref \<Rightarrow> projection \<Rightarrow> projection" where
  "expanded insp n rm p =
     (let k = length (objects p);
          ns = nonNull (insp_getChildrenOf insp n);
          kids = [k ..< k + length ns];
          i = nat (indexOf (uu_rowMetaDatas p) rm + 1)
      in p\<lparr>uu_rowMetaDatas := take i (uu_rowMetaDatas p) @ kids @ drop i (uu_rowMetaDatas p),
           uu_rowMetaDataByNode := (uu_rowMetaDataByNode p)(ns [\<mapsto>] kids),
           objects := (objects p)
               [rm := (objects p ! rm)\<lparr>childrenChangeBinding := Some (length (bindingsCreated p)),
                                        childRowMetas := Some kids\<rparr>] @
             newRows insp (level (objects p ! rm)) ns,
           bindingsCreated := bindingsCreated p @ [n],
           changeSize := changeSize p @ [length (uu_rowMetaDatas p) + length ns]\<rparr>)"


subsection \<open>The shape of the store\<close>

text \<open>
  Two facts about the row objects that the recursion of \<^verbatim>\<open>_removeChildRows\<close>
  depends on. \<open>same_shape\<close>: two stores have the same row objects with the same
  \<^verbatim>\<open>childRowMetas\<close>. \<open>forward\<close>: every child row object was created after
  its parent, as \<^verbatim>\<open>_insertChildRows\<close> and \<^verbatim>\<open>_expandNode\<close> create them.
\<close>

definition same_shape :: "projection \<Rightarrow> projection \<Rightarrow> bool" where
  "same_shape p q \<longleftrightarrow> length (objects q) = length (objects p) \<and>
     (\<forall>a. childRowMetas (objects q ! a) = childRowMetas (objects p ! a))"

definition forward :: "projection \<Rightarrow> bool" where
  "forward p \<longleftrightarrow> (\<forall>r cs. r < length (objects p) \<and> childRowMetas (objects p ! r) = Some cs \<longrightarrow>
     (\<forall>c \<in> set cs. r < c \<and> c < length (objects p)))"

subsection \<open>Trees and the states of the data source\<close>

text \<open>
  The inspector describes a tree with the root \<open>R\<close>: the root has no parent,
  every child names its parent, and no node is listed twice among the children
  of a node.
\<close>

definition tree :: "inspector \<Rightarrow> node \<Rightarrow> bool" where
  "tree insp R \<longleftrightarrow>
     insp_getParentOf insp R = None \<and>
     (\<forall>n c. Some c \<in> set (insp_getChildrenOf insp n) \<longrightarrow> insp_getParentOf insp c = Some n) \<and>
     (\<forall>n. distinct (nonNull (insp_getChildrenOf insp n)))"

text \<open>
  The data model of the data source for that tree. The dictionary leads from a
  node to a row object of that node in the store, and the rows are in the store;
  child rows were created after their parents; the child rows of a node in the
  dictionary are in the dictionary under their own nodes, which are children of
  that node; and every node in the dictionary but the root is among the child
  rows of its parent, which is in the dictionary. It is what \<^verbatim>\<open>__applyRoot\<close>
  sets up and \<^verbatim>\<open>_expandNode\<close> and \<^verbatim>\<open>_collapseNode\<close> keep (lemmas
  \<open>applyRootFn_consistent\<close>, \<open>u_expandNode_consistent\<close> and
  \<open>u_collapseNode_consistent\<close>).
\<close>

definition consistent :: "inspector \<Rightarrow> node \<Rightarrow> projection \<Rightarrow> bool" where
  "consistent insp R p \<longleftrightarrow>
     (\<forall>x r. uu_rowMetaDataByNode p x = Some r \<longrightarrow>
        r < length (objects p) \<and> node (objects p ! r) = Some x) \<and>
     (\<forall>r \<in> set (uu_rowMetaDatas p). r < length (objects p)) \<and>
     forward p \<and>
     (\<forall>x r cs c. uu_rowMetaDataByNode p x = Some r \<and> childRowMetas (objects p ! r) = Some cs \<and>
        c \<in> set cs \<longrightarrow>
        (\<exists>z. node (objects p ! c) = Some z \<and> uu_rowMetaDataByNode p z = Some c \<and>
           insp_getParentOf insp z = Some x)) \<and>
     (\<forall>z c. uu_rowMetaDataByNode p z = Some c \<longrightarrow>
        z = R \<or>
        (\<exists>x r cs. insp_getParentOf insp z = Some x \<and> uu_rowMetaDataByNode p x = Some r \<and>
           childRowMetas (objects p ! r) = Some cs \<and> c \<in> set cs))"

text \<open>
  What collapsing leaves alone. \<open>keeps p q\<close>: the store of \<open>q\<close> has the row
  objects of \<open>p\<close> with the same nodes and the same \<^verbatim>\<open>childRowMetas\<close>, the
  dictionary is the same, and the row array of \<open>q\<close> holds no row that the one of
  \<open>p\<close> does not hold.
\<close>

definition keeps :: "projection \<Rightarrow> projection \<Rightarrow> bool" where
  "keeps p q \<longleftrightarrow> length (objects q) = length (objects p) \<and>
     (\<forall>a < length (objects p). node (objects q ! a) = node (objects p ! a) \<and>
        childRowMetas (objects q ! a) = childRowMetas (objects p ! a)) \<and>
     uu_rowMetaDataByNode q = uu_rowMetaDataByNode p \<and>
     set (uu_rowMetaDatas q) \<subseteq> set (uu_rowMetaDatas p)"

text \<open>
  The rows below a row: \<open>childRel\<close> relates a row object of the store to each of
  its \<^verbatim>\<open>childRowMetas\<close>, and \<open>desc p r\<close> are the rows that are reached from
  \<open>r\<close> along it. They are what the recursion of \<^verbatim>\<open>_removeChildRows\<close> collects
  in \<^verbatim>\<open>toRemove\<close> (lemma \<open>rec_collects\<close>).
\<close>

definition childRel :: "projection \<Rightarrow> (ref \<times> ref) set" where
  "childRel p = {(a, c). a < length (objects p) \<and>
     (\<exists>cs. childRowMetas (objects p ! a) = Some cs \<and> c \<in> set cs)}"

definition desc :: "projection \<Rightarrow> ref \<Rightarrow> ref set" where
  "desc p r = {d. (r, d) \<in> (childRel p)\<^sup>+}"

text \<open>
  The states that the data source reaches for the root \<open>R\<close>: a root of a tree is
  set on a new data source, or in place of an earlier root, and nodes are
  expanded, collapsed, refreshed and revealed, each call awaited before the next
  is made and returning without an error. Every such state has the data model
  above and an empty queue (lemma \<open>reachable_consistent\<close>).
\<close>

inductive reachable :: "inspector \<Rightarrow> node \<Rightarrow> tds \<Rightarrow> bool" for insp where
  setRoot: "tree insp R \<Longrightarrow> uu_applyRoot insp (Some R) None construct = Some (Inr (), s) \<Longrightarrow>
      reachable insp R s"
| setRoot_again: "reachable insp R0 s0 \<Longrightarrow> tree insp R \<Longrightarrow>
      uu_applyRoot insp (Some R) (Some R0) s0 = Some (Inr (), s) \<Longrightarrow> reachable insp R s"
| expandNode: "reachable insp R s \<Longrightarrow> expandNode insp n s = Some (Inr (), s') \<Longrightarrow>
      reachable insp R s'"
| collapseNode: "reachable insp R s \<Longrightarrow> collapseNode insp n s = Some (Inr (), s') \<Longrightarrow>
      reachable insp R s'"
| refreshNodeChildren: "reachable insp R s \<Longrightarrow>
      refreshNodeChildren insp n s = Some (Inr (), s') \<Longrightarrow> reachable insp R s'"
| revealNode: "reachable insp R s \<Longrightarrow> revealNode insp n s = Some (Inr (), s') \<Longrightarrow>
      reachable insp R s'"

section \<open>Properties\<close>

subsection \<open>Evaluation\<close>

lemmas ops_defs =
  uu_applyRoot_def queue_def applyRootFn_def u_insertChildRows_def u_getNodeMetaData_def
  uu_createRowMetaData_def createChildrenChangeBinding_def setRow_def fireChangeSize_def
  for_in_def u_expandNode_def u_collapseNode_def u_removeChildRows_def expandNode_def
  collapseNode_def revealNode_def revealNodeFn_def refreshNodeChildrenFn_def
  getPathToNode_def falsy_array_def slice_to_def slice_from_def construct_def

lemma ex_root: "uu_applyRoot ex_insp (Some 10) None construct = Some (Inr (), ex_rooted)"
  by (simp add: ops_defs ex_insp_def ex_rooted_def mkRow_def eval_nat_numeral Let_def)

lemma ex_expand_fn: "u_expandNode ex_insp 11 (proj ex_rooted) = (Inr (), proj ex_expanded)"
  by (simp add: ops_defs ex_insp_def ex_rooted_def ex_expanded_def mkRow_def eval_nat_numeral
      Let_def)

lemma ex_expand: "expandNode ex_insp 11 ex_rooted = Some (Inr (), ex_expanded)"
  by (simp add: ops_defs ex_insp_def ex_rooted_def ex_expanded_def mkRow_def eval_nat_numeral
      Let_def)

lemma ex_expand_unknown:
  "u_expandNode ex_insp 99 (proj ex_expanded) = (Inl (CannotFindInRows 99), proj ex_expanded)"
  by (simp add: ops_defs ex_expanded_def)



subsection \<open>Array helpers: facts\<close>


lemma indexOf_ge: "- 1 \<le> indexOf xs x"
  by (induction xs) (auto simp: Let_def)

lemma indexOf_notin: "x \<notin> set xs \<Longrightarrow> indexOf xs x = - 1"
  by (induction xs) (auto simp: Let_def)

lemma indexOf_in:
  "x \<in> set xs \<Longrightarrow> \<exists>i<length xs. indexOf xs x = int i \<and> xs ! i = x \<and> x \<notin> set (take i xs)"
proof (induction xs)
  case Nil
  then show ?case by simp
next
  case (Cons y ys)
  show ?case
  proof (cases "y = x")
    case True
    then show ?thesis by (intro exI[of _ 0]) simp
  next
    case False
    with Cons obtain i where i: "i < length ys" "indexOf ys x = int i" "ys ! i = x" "x \<notin> set (take i ys)"
      by auto
    with False show ?thesis by (intro exI[of _ "Suc i"]) (simp add: Let_def)
  qed
qed

subsection \<open>The scenario of the specification\<close>

text \<open>
  C1. A root R has the children A and B, where A can have children and B cannot, and
  A has the children C and D. Applying R as the root of a new data source gives
  the rows A, B, both at level 0, and the size 2 by 1. Expanding A then gives the
  rows A, C, D, B with C and D at level 1, the size 4 by 1 and the state open at
  level 0 for A. Collapsing A gives the rows A, B again and the state closed at
  level 0 for A.
\<close>

theorem scenario_setRoot_expand_collapse:
  assumes d: "distinct [R, A, B, C, D]"
    and cR: "insp_getChildrenOf insp R = [Some A, Some B]"
    and cA: "insp_getChildrenOf insp A = [Some C, Some D]"
    and hR: "insp_canHaveChildren insp (Some R)"
    and hA: "insp_canHaveChildren insp (Some A)"
    and hB: "\<not> insp_canHaveChildren insp (Some B)"
  shows "\<exists>s1 s2 s3.
     uu_applyRoot insp (Some R) None construct = Some (Inr (), s1) \<and>
     rowList (proj s1) = [(Some A, 0), (Some B, 0)] \<and>
     getSize (proj s1) = Position 2 1 \<and>
     expandNode insp A s1 = Some (Inr (), s2) \<and>
     rowList (proj s2) = [(Some A, 0), (Some C, 1), (Some D, 1), (Some B, 0)] \<and>
     getSize (proj s2) = Position 4 1 \<and>
     getNodeStateFor (proj s2) A = Some (NodeState 0 ''open'') \<and>
     collapseNode insp A s2 = Some (Inr (), s3) \<and>
     rowList (proj s3) = [(Some A, 0), (Some B, 0)] \<and>
     getSize (proj s3) = Position 2 1 \<and>
     getNodeStateFor (proj s3) A = Some (NodeState 0 ''closed'')"
proof -
  let ?cC = "insp_canHaveChildren insp (Some C)"
  let ?cD = "insp_canHaveChildren insp (Some D)"
  let ?s1 = "\<lparr>proj = \<lparr>uu_rowMetaDatas = [1, 2],
       uu_rowMetaDataByNode = [R \<mapsto> 0, A \<mapsto> 1, B \<mapsto> 2],
       objects = [mkRow R (- 1) True (Some 0) (Some [1, 2]), mkRow A 0 True None None,
                  mkRow B 0 False None None],
       bindingsCreated = [R], bindingsDisposed = [], changeSize = [2, 2]\<rparr>,
     uu_queue = [], uu_promiseQueueEmpty = None\<rparr>"
  let ?s2 = "\<lparr>proj = \<lparr>uu_rowMetaDatas = [1, 3, 4, 2],
       uu_rowMetaDataByNode = [R \<mapsto> 0, A \<mapsto> 1, B \<mapsto> 2, C \<mapsto> 3, D \<mapsto> 4],
       objects = [mkRow R (- 1) True (Some 0) (Some [1, 2]),
                  mkRow A 0 True (Some 1) (Some [3, 4]),
                  mkRow B 0 False None None, mkRow C 1 ?cC None None, mkRow D 1 ?cD None None],
       bindingsCreated = [R, A], bindingsDisposed = [], changeSize = [2, 2, 4]\<rparr>,
     uu_queue = [], uu_promiseQueueEmpty = None\<rparr>"
  let ?s3 = "\<lparr>proj = \<lparr>uu_rowMetaDatas = [1, 2],
       uu_rowMetaDataByNode = [R \<mapsto> 0, A \<mapsto> 1, B \<mapsto> 2],
       objects = [mkRow R (- 1) True (Some 0) (Some [1, 2]),
                  mkRow A 0 True None None,
                  mkRow B 0 False None None, mkRow C 1 ?cC None None, mkRow D 1 ?cD None None],
       bindingsCreated = [R, A], bindingsDisposed = [1], changeSize = [2, 2, 4, 2]\<rparr>,
     uu_queue = [], uu_promiseQueueEmpty = None\<rparr>"
  have 1: "uu_applyRoot insp (Some R) None construct = Some (Inr (), ?s1)"
    using d cR hR hA hB by (simp add: ops_defs mkRow_def eval_nat_numeral Let_def)
  have 2: "expandNode insp A ?s1 = Some (Inr (), ?s2)"
    using d cA hA by (simp add: ops_defs mkRow_def eval_nat_numeral Let_def)
  have 3: "collapseNode insp A ?s2 = Some (Inr (), ?s3)"
    using d by (simp add: ops_defs mkRow_def eval_nat_numeral Let_def fun_eq_iff)
  have r1: "rowList (proj ?s1) = [(Some A, 0), (Some B, 0)] \<and> getSize (proj ?s1) = Position 2 1"
    by (simp add: rowList_def getSize_def mkRow_def)
  have r2: "rowList (proj ?s2) = [(Some A, 0), (Some C, 1), (Some D, 1), (Some B, 0)] \<and>
     getSize (proj ?s2) = Position 4 1 \<and>
     getNodeStateFor (proj ?s2) A = Some (NodeState 0 ''open'')"
    using d by (simp add: rowList_def getSize_def getNodeStateFor_def mkRow_def)
  have r3: "rowList (proj ?s3) = [(Some A, 0), (Some B, 0)] \<and>
     getSize (proj ?s3) = Position 2 1 \<and>
     getNodeStateFor (proj ?s3) A = Some (NodeState 0 ''closed'')"
    using d by (simp add: rowList_def getSize_def getNodeStateFor_def mkRow_def)
  show ?thesis using 1 2 3 r1 r2 r3 by blast
qed

theorem scenario_setRoot_expand_collapse_witness:
  "distinct [10, 11, 12, 13, 14 :: node] \<and>
   insp_getChildrenOf ex_insp 10 = [Some 11, Some 12] \<and>
   insp_getChildrenOf ex_insp 11 = [Some 13, Some 14] \<and>
   insp_canHaveChildren ex_insp (Some 10) \<and>
   insp_canHaveChildren ex_insp (Some 11) \<and>
   \<not> insp_canHaveChildren ex_insp (Some 12) \<and>
   (\<exists>s1 s2 s3.
     uu_applyRoot ex_insp (Some 10) None construct = Some (Inr (), s1) \<and>
     rowList (proj s1) = [(Some 11, 0), (Some 12, 0)] \<and>
     getSize (proj s1) = Position 2 1 \<and>
     expandNode ex_insp 11 s1 = Some (Inr (), s2) \<and>
     rowList (proj s2) = [(Some 11, 0), (Some 13, 1), (Some 14, 1), (Some 12, 0)] \<and>
     getSize (proj s2) = Position 4 1 \<and>
     getNodeStateFor (proj s2) 11 = Some (NodeState 0 ''open'') \<and>
     collapseNode ex_insp 11 s2 = Some (Inr (), s3) \<and>
     rowList (proj s3) = [(Some 11, 0), (Some 12, 0)] \<and>
     getSize (proj s3) = Position 2 1 \<and>
     getNodeStateFor (proj s3) 11 = Some (NodeState 0 ''closed''))"
proof -
  have h: "distinct [10, 11, 12, 13, 14 :: node]"
    "insp_getChildrenOf ex_insp 10 = [Some 11, Some 12]"
    "insp_getChildrenOf ex_insp 11 = [Some 13, Some 14]"
    "insp_canHaveChildren ex_insp (Some 10)"
    "insp_canHaveChildren ex_insp (Some 11)"
    "\<not> insp_canHaveChildren ex_insp (Some 12)"
    by (simp_all add: ex_insp_def)
  from scenario_setRoot_expand_collapse [OF h] h show ?thesis by blast
qed

subsection \<open>Reading\<close>

text \<open>
  C10. \<^verbatim>\<open>getShownChildren(node)\<close> throws (a TypeError) for a node that is not
  in the dictionary and for a node whose row object has no \<^verbatim>\<open>childRowMetas\<close>;
  it returns a list, the nodes of the child rows, only for a node whose row object
  has \<^verbatim>\<open>childRowMetas\<close>.
\<close>

theorem getShownChildren_only_when_expanded:
  "(uu_rowMetaDataByNode p n = None \<longrightarrow> getShownChildren p n = Inl TypeError) \<and>
   (\<forall>rm. uu_rowMetaDataByNode p n = Some rm \<and> childRowMetas (objects p ! rm) = None \<longrightarrow>
      getShownChildren p n = Inl TypeError) \<and>
   (\<forall>rm rs. uu_rowMetaDataByNode p n = Some rm \<and> childRowMetas (objects p ! rm) = Some rs \<longrightarrow>
      getShownChildren p n = Inr (map (\<lambda>r. node (objects p ! r)) rs))"
  by (simp add: getShownChildren_def u_getNodeMetaData_def)

theorem getShownChildren_only_when_expanded_witness:
  "uu_rowMetaDataByNode (proj ex_rooted) 99 = None \<and>
   getShownChildren (proj ex_rooted) 99 = Inl TypeError \<and>
   uu_rowMetaDataByNode (proj ex_rooted) 11 = Some 1 \<and>
   childRowMetas (objects (proj ex_rooted) ! 1) = None \<and>
   getShownChildren (proj ex_rooted) 11 = Inl TypeError \<and>
   uu_rowMetaDataByNode (proj ex_expanded) 11 = Some 1 \<and>
   childRowMetas (objects (proj ex_expanded) ! 1) = Some [3, 4] \<and>
   getShownChildren (proj ex_expanded) 11 = Inr [Some 13, Some 14]"
  using getShownChildren_only_when_expanded [of "proj ex_rooted" 99]
    getShownChildren_only_when_expanded [of "proj ex_rooted" 11]
    getShownChildren_only_when_expanded [of "proj ex_expanded" 11]
  by (simp add: ex_rooted_def ex_expanded_def mkRow_def)

text \<open>
  C6, as stated, fails for the root: the root is in the dictionary and its row
  object is not in the row array, and \<^verbatim>\<open>getPositionOfModel\<close> returns the
  position of row -1, not null.
\<close>

theorem getPositionOfModel_root_counterexample:
  "uu_applyRoot ex_insp (Some 10) None construct = Some (Inr (), ex_rooted) \<and>
   uu_rowMetaDataByNode (proj ex_rooted) 10 = Some 0 \<and>
   0 \<notin> set (uu_rowMetaDatas (proj ex_rooted)) \<and>
   getPositionOfModel (proj ex_rooted) 10 = Some (Position (- 1) 0)"
  using ex_root by (simp add: ex_rooted_def getPositionOfModel_def)

text \<open>
  C6, amended. \<^verbatim>\<open>getPositionOfModel(node)\<close> returns null exactly when the
  node is not in the dictionary. For a node in the dictionary it returns the
  position of the first occurrence of its row object in the row array, in column
  0, when the row object is in the array, and the position of row -1 when it is
  not.
\<close>

theorem getPositionOfModel_null_iff_not_indexed:
  "(getPositionOfModel p n = None \<longleftrightarrow> uu_rowMetaDataByNode p n = None) \<and>
   (\<forall>row. uu_rowMetaDataByNode p n = Some row \<longrightarrow>
      (row \<in> set (uu_rowMetaDatas p) \<longrightarrow>
         (\<exists>i<length (uu_rowMetaDatas p).
            getPositionOfModel p n = Some (Position (int i) 0) \<and>
            uu_rowMetaDatas p ! i = row \<and> row \<notin> set (take i (uu_rowMetaDatas p)))) \<and>
      (row \<notin> set (uu_rowMetaDatas p) \<longrightarrow>
         getPositionOfModel p n = Some (Position (- 1) 0)))"
proof (cases "uu_rowMetaDataByNode p n")
  case None
  then show ?thesis by (simp add: getPositionOfModel_def)
next
  case (Some row)
  have "row \<in> set (uu_rowMetaDatas p) \<Longrightarrow>
    \<exists>i<length (uu_rowMetaDatas p). indexOf (uu_rowMetaDatas p) row = int i \<and>
       uu_rowMetaDatas p ! i = row \<and> row \<notin> set (take i (uu_rowMetaDatas p))"
    by (rule indexOf_in)
  with Some show ?thesis
    by (auto simp: getPositionOfModel_def indexOf_notin)
qed

theorem getPositionOfModel_null_iff_not_indexed_witness:
  "uu_rowMetaDataByNode (proj ex_rooted) 99 = None \<and>
   getPositionOfModel (proj ex_rooted) 99 = None \<and>
   uu_rowMetaDataByNode (proj ex_rooted) 12 = Some 2 \<and>
   2 \<in> set (uu_rowMetaDatas (proj ex_rooted)) \<and>
   getPositionOfModel (proj ex_rooted) 12 = Some (Position 1 0) \<and>
   uu_rowMetaDataByNode (proj ex_rooted) 10 = Some 0 \<and>
   0 \<notin> set (uu_rowMetaDatas (proj ex_rooted)) \<and>
   getPositionOfModel (proj ex_rooted) 10 = Some (Position (- 1) 0)"
proof -
  have a: "uu_rowMetaDataByNode (proj ex_rooted) 99 = None"
    and b: "uu_rowMetaDataByNode (proj ex_rooted) 12 = Some 2"
    and b': "2 \<in> set (uu_rowMetaDatas (proj ex_rooted))"
    and c: "uu_rowMetaDataByNode (proj ex_rooted) 10 = Some 0"
    and c': "0 \<notin> set (uu_rowMetaDatas (proj ex_rooted))"
    by (simp_all add: ex_rooted_def)
  have rows: "uu_rowMetaDatas (proj ex_rooted) = [1, 2]"
    by (simp add: ex_rooted_def)
  from getPositionOfModel_null_iff_not_indexed [of "proj ex_rooted" 99] a
  have 1: "getPositionOfModel (proj ex_rooted) 99 = None" by simp
  from getPositionOfModel_null_iff_not_indexed [of "proj ex_rooted" 12] b b'
  obtain i where i: "i < length (uu_rowMetaDatas (proj ex_rooted))"
    "getPositionOfModel (proj ex_rooted) 12 = Some (Position (int i) 0)"
    "uu_rowMetaDatas (proj ex_rooted) ! i = 2" by blast
  from i(1,3) rows have "i = 1" by (cases i) auto
  with i have 2: "getPositionOfModel (proj ex_rooted) 12 = Some (Position 1 0)" by simp
  from getPositionOfModel_null_iff_not_indexed [of "proj ex_rooted" 10] c c'
  have 3: "getPositionOfModel (proj ex_rooted) 10 = Some (Position (- 1) 0)" by blast
  from a b b' c c' 1 2 3 show ?thesis by blast
qed

subsection \<open>Applying a root\<close>

text \<open>
  C4, at a failing input. The root 10 is replaced by null while node 11 is expanded:
  the row object of node 11 is in the row array and holds binding 1. The row array
  and the dictionary are emptied, and no binding is disposed: \<^verbatim>\<open>__applyRoot\<close>
  empties the row array before it takes it for the old rows.
\<close>

theorem applyRoot_old_bindings_not_disposed:
  "uu_rowMetaDataByNode (proj ex_expanded) 11 = Some 1 \<and>
   1 \<in> set (uu_rowMetaDatas (proj ex_expanded)) \<and>
   childrenChangeBinding (objects (proj ex_expanded) ! 1) = Some 1 \<and>
   uu_applyRoot ex_insp None (Some 10) ex_expanded =
     Some (Inr (),
       ex_expanded\<lparr>proj := (proj ex_expanded)
         \<lparr>uu_rowMetaDatas := [], uu_rowMetaDataByNode := Map.empty,
          changeSize := [2, 2, 4, 0]\<rparr>\<rparr>) \<and>
   bindingsDisposed (proj (ex_expanded\<lparr>proj := (proj ex_expanded)
         \<lparr>uu_rowMetaDatas := [], uu_rowMetaDataByNode := Map.empty,
          changeSize := [2, 2, 4, 0]\<rparr>\<rparr>)) = []"
  by (simp add: ops_defs ex_expanded_def mkRow_def)

text \<open>
  C5, as stated, fails: after a root that cannot have children was rejected, the
  row array is empty and the dictionary holds the row object of the rejected root.
\<close>

theorem applyRoot_rejected_root_counterexample:
  "\<not> insp_canHaveChildren ex_insp_leaf (Some 10) \<and>
   uu_applyRoot ex_insp_leaf (Some 10) None construct =
     Some (Inl RootMustBeAbleToHaveChildren, ex_rejected) \<and>
   length (uu_rowMetaDatas (proj ex_rejected)) = 0 \<and>
   uu_rowMetaDataByNode (proj ex_rejected) 10 = Some 0 \<and>
   objects (proj ex_rejected) ! 0 = mkRow 10 (- 1) False None None"
  by (simp add: ops_defs ex_insp_leaf_def ex_insp_def ex_rejected_def mkRow_def)

text \<open>
  C5, amended. For every new root that cannot have children, applied while the queue
  is empty, \<^verbatim>\<open>__applyRoot\<close> throws "Root must be able to have children!" and
  leaves the row array empty; the dictionary holds a new row object for the
  rejected root, at level -1 and unable to have children, beside the entries it
  had (none when the old root was not null).
\<close>

theorem applyRoot_rejected_root:
  assumes "\<not> insp_canHaveChildren insp (Some v)" and "uu_queue s = []"
  shows "\<exists>s'. uu_applyRoot insp (Some v) old s = Some (Inl RootMustBeAbleToHaveChildren, s') \<and>
     uu_rowMetaDatas (proj s') = [] \<and>
     uu_rowMetaDataByNode (proj s') =
       (case old of None \<Rightarrow> uu_rowMetaDataByNode (proj s) | Some r \<Rightarrow> Map.empty)
         (v \<mapsto> length (objects (proj s))) \<and>
     objects (proj s') = objects (proj s) @ [mkRow v (- 1) False None None]"
  using assms by (cases old) (simp_all add: ops_defs mkRow_def)

theorem applyRoot_rejected_root_witness:
  "\<not> insp_canHaveChildren ex_insp_leaf (Some 10) \<and> uu_queue ex_expanded = [] \<and>
   (\<exists>s'. uu_applyRoot ex_insp_leaf (Some 10) (Some 10) ex_expanded =
       Some (Inl RootMustBeAbleToHaveChildren, s') \<and>
     uu_rowMetaDatas (proj s') = [] \<and>
     uu_rowMetaDataByNode (proj s') = [10 \<mapsto> 5] \<and>
     objects (proj s') = objects (proj ex_expanded) @ [mkRow 10 (- 1) False None None])"
proof -
  have h: "\<not> insp_canHaveChildren ex_insp_leaf (Some 10)" "uu_queue ex_expanded = []"
    by (simp_all add: ex_insp_leaf_def ex_expanded_def)
  have l: "length (objects (proj ex_expanded)) = 5" by (simp add: ex_expanded_def)
  from applyRoot_rejected_root [OF h, of "Some 10"] h l show ?thesis by simp
qed

subsection \<open>Revealing a node\<close>

text \<open>
  C7, at a failing input. Node 99 has no parent and is not in the tree of root 10.
  \<^verbatim>\<open>revealNode(99)\<close> returns without an error and leaves the data source as
  it was: the path that \<^verbatim>\<open>getPathToNode\<close> returns is an array, and the test
  \<^verbatim>\<open>!ancestors\<close> that guards the error never holds.
\<close>

theorem revealNode_disconnected_completes:
  "insp_getParentOf ex_insp 99 = None \<and>
   uu_rowMetaDataByNode (proj ex_rooted) 99 = None \<and>
   revealNode ex_insp 99 ex_rooted = Some (Inr (), ex_rooted)"
  by (simp add: ops_defs ex_insp_def ex_rooted_def getPathToNode_loop.simps)

subsection \<open>The queue\<close>


text \<open>The function that \<^verbatim>\<open>__applyRoot\<close> queues is its part up to the first
  \<^verbatim>\<open>await\<close> followed by the rest.\<close>

lemma applyRootFn_split:
  "applyRootFn insp v p =
     (case applyRootFn_begin insp v p of
        (Inl e, q) \<Rightarrow> (Inl e, q)
      | (Inr rm, q) \<Rightarrow> applyRootFn_rest insp v rm q)"
  by (simp add: applyRootFn_def applyRootFn_begin_def applyRootFn_rest_def u_insertChildRows_def
      Let_def split: prod.splits option.splits sum.splits)

text \<open>
  A call of \<^verbatim>\<open>queue\<close> on an empty queue, awaited with nothing in between,
  returns what the function returns, with its work done.
\<close>

lemma queue_first:
  assumes "uu_queue s = []"
  shows "queue insp fn s =
     (case call insp fn (proj s) of
        None \<Rightarrow> None
      | Some (Inl e, p1) \<Rightarrow> Some (Inl e, s\<lparr>proj := p1, uu_queue := [fn]\<rparr>)
      | Some (Inr u, p1) \<Rightarrow>
          Some (Inr (), s\<lparr>proj := p1, uu_queue := [], uu_promiseQueueEmpty := None\<rparr>))"
  using assms by (simp add: queue_def split: option.splits sum.splits prod.splits)





lemma stalled_step:
  assumes "awaiting rt = None" and "uu_queue (this rt) \<noteq> []"
  shows "awaiting (step insp ev rt) = None \<and>
    proj (this (step insp ev rt)) = proj (this rt) \<and>
    (\<exists>more. uu_queue (this (step insp ev rt)) = uu_queue (this rt) @ more)"
proof (cases ev)
  case (CallQueue c fn)
  with assms show ?thesis by (cases "uu_queue (this rt)") (simp_all add: Let_def)
next
  case Settle
  with assms show ?thesis by simp
next
  case (CallFlushQueue w)
  with assms show ?thesis by (simp add: flushQueue_def split: option.splits)
qed

lemma stalled_run:
  assumes "awaiting rt = None" and "uu_queue (this rt) \<noteq> []"
  shows "awaiting (run insp evs rt) = None \<and>
    proj (this (run insp evs rt)) = proj (this rt) \<and>
    (\<exists>more. uu_queue (this (run insp evs rt)) = uu_queue (this rt) @ more)"
  using assms
proof (induction evs arbitrary: rt)
  case Nil
  then show ?case by (simp add: run_def)
next
  case (Cons ev evs)
  from stalled_step [OF Cons.prems, of insp ev]
  obtain more where s: "awaiting (step insp ev rt) = None"
    "proj (this (step insp ev rt)) = proj (this rt)"
    "uu_queue (this (step insp ev rt)) = uu_queue (this rt) @ more" by blast
  with Cons.prems have ne: "uu_queue (this (step insp ev rt)) \<noteq> []" by simp
  from Cons.IH [OF s(1) ne] s show ?case by (auto simp: run_def)
qed

text \<open>
  C2, as stated, fails. Caller 1 queues the expansion of node 11, caller 2 the
  expansion of node 99, which is in no row and throws, and caller 3 the collapse of
  node 11. Caller 2 is settled without an error, the error goes to caller 1, and
  the collapse is never called: the two functions stay in the queue and node 11
  stays expanded, however often the run-time is given the chance to go on.
\<close>

theorem failing_fn_counterexample:
  "run ex_insp
     [CallQueue 1 (ExpandNodeFn 11), CallQueue 2 (ExpandNodeFn 99), CallQueue 3 (CollapseNodeFn 11),
      Settle, Settle, Settle, Settle]
     (start ex_rooted) =
   \<lparr>this = ex_expanded\<lparr>uu_queue := [ExpandNodeFn 99, CollapseNodeFn 11]\<rparr>,
    awaiting = None,
    settled = [(2, Inr ()), (3, Inr ()), (1, Inl (CannotFindInRows 99))]\<rparr>"
  using ex_expand_fn ex_expand_unknown
  by (simp add: run_def start_def ex_rooted_def ex_expanded_def)

text \<open>
  C2, amended. When the awaited function of the queue throws, the error goes to the
  caller whose call of \<^verbatim>\<open>queue\<close> found the queue empty (for a call on an
  empty queue that is the caller itself) and the function stays at the head of the
  queue. From then on no function is called again: whatever calls follow, the data
  stay as they are and the queue only grows.
\<close>

theorem failing_fn_rejects_first_caller_and_stalls:
  "(\<forall>c fn rest e p1. awaiting rt = Some c \<and> uu_queue (this rt) = fn # rest \<and>
        call insp fn (proj (this rt)) = Some (Inl e, p1) \<longrightarrow>
      step insp Settle rt =
        rt\<lparr>this := (this rt)\<lparr>proj := p1\<rparr>, awaiting := None,
           settled := settled rt @ [(c, Inl e)]\<rparr>) \<and>
   (\<forall>fn e p1. uu_queue (this rt) = [] \<and> call insp fn (proj (this rt)) = Some (Inl e, p1) \<longrightarrow>
      queue insp fn (this rt) = Some (Inl e, (this rt)\<lparr>proj := p1, uu_queue := [fn]\<rparr>)) \<and>
   (awaiting rt = None \<and> uu_queue (this rt) \<noteq> [] \<longrightarrow>
      (\<forall>evs. awaiting (run insp evs rt) = None \<and>
         proj (this (run insp evs rt)) = proj (this rt) \<and>
         (\<exists>more. uu_queue (this (run insp evs rt)) = uu_queue (this rt) @ more)))"
proof (intro conjI allI impI)
  fix c fn rest e p1
  assume "awaiting rt = Some c \<and> uu_queue (this rt) = fn # rest \<and>
        call insp fn (proj (this rt)) = Some (Inl e, p1)"
  then show "step insp Settle rt =
        rt\<lparr>this := (this rt)\<lparr>proj := p1\<rparr>, awaiting := None,
           settled := settled rt @ [(c, Inl e)]\<rparr>"
    by simp
next
  fix fn e p1
  assume "uu_queue (this rt) = [] \<and> call insp fn (proj (this rt)) = Some (Inl e, p1)"
  then show "queue insp fn (this rt) = Some (Inl e, (this rt)\<lparr>proj := p1, uu_queue := [fn]\<rparr>)"
    by (simp add: queue_def)
next
  fix evs
  assume a: "awaiting rt = None \<and> uu_queue (this rt) \<noteq> []"
  then have n: "awaiting rt = None" and q: "uu_queue (this rt) \<noteq> []" by simp_all
  from stalled_run [OF n q, of insp evs]
  show "awaiting (run insp evs rt) = None"
    and "proj (this (run insp evs rt)) = proj (this rt)"
    and "\<exists>more. uu_queue (this (run insp evs rt)) = uu_queue (this rt) @ more"
    by blast+
qed

theorem failing_fn_rejects_first_caller_and_stalls_witness:
  "step ex_insp Settle
     \<lparr>this = ex_expanded\<lparr>uu_queue := [ExpandNodeFn 99, CollapseNodeFn 11]\<rparr>,
      awaiting = Some 1, settled = [(2, Inr ()), (3, Inr ())]\<rparr> =
     \<lparr>this = ex_expanded\<lparr>uu_queue := [ExpandNodeFn 99, CollapseNodeFn 11]\<rparr>,
      awaiting = None, settled = [(2, Inr ()), (3, Inr ()), (1, Inl (CannotFindInRows 99))]\<rparr> \<and>
   queue ex_insp (ExpandNodeFn 99) ex_expanded =
     Some (Inl (CannotFindInRows 99), ex_expanded\<lparr>uu_queue := [ExpandNodeFn 99]\<rparr>) \<and>
   proj (this (run ex_insp [Settle, CallQueue 4 (CollapseNodeFn 11), Settle]
     \<lparr>this = ex_expanded\<lparr>uu_queue := [ExpandNodeFn 99, CollapseNodeFn 11]\<rparr>,
      awaiting = None, settled = [(2, Inr ()), (3, Inr ()), (1, Inl (CannotFindInRows 99))]\<rparr>)) =
     proj ex_expanded"
proof -
  let ?rt = "\<lparr>this = ex_expanded\<lparr>uu_queue := [ExpandNodeFn 99, CollapseNodeFn 11]\<rparr>,
      awaiting = Some 1, settled = [(2, Inr ()), (3, Inr ())]\<rparr>"
  let ?rt' = "\<lparr>this = ex_expanded\<lparr>uu_queue := [ExpandNodeFn 99, CollapseNodeFn 11]\<rparr>,
      awaiting = None, settled = [(2, Inr ()), (3, Inr ()), (1, Inl (CannotFindInRows 99))]\<rparr>"
  let ?fresh = "start ex_expanded"
  have c: "call ex_insp (ExpandNodeFn 99) (proj (this ?rt)) =
      Some (Inl (CannotFindInRows 99), proj ex_expanded)"
    using ex_expand_unknown by simp
  have 1: "step ex_insp Settle ?rt = ?rt'"
    using failing_fn_rejects_first_caller_and_stalls [of ?rt ex_insp] c by simp
  have t0: "this ?fresh = ex_expanded" by (simp add: start_def)
  have q0: "uu_queue ex_expanded = []" by (simp add: ex_expanded_def)
  have c0: "uu_queue (this ?fresh) = [] \<and> call ex_insp (ExpandNodeFn 99) (proj (this ?fresh)) =
      Some (Inl (CannotFindInRows 99), proj ex_expanded)"
    using ex_expand_unknown t0 q0 by simp
  have 2: "queue ex_insp (ExpandNodeFn 99) ex_expanded =
     Some (Inl (CannotFindInRows 99), ex_expanded\<lparr>uu_queue := [ExpandNodeFn 99]\<rparr>)"
    using failing_fn_rejects_first_caller_and_stalls [of ?fresh ex_insp] c0 t0
    by simp
  have 3: "proj (this (run ex_insp [Settle, CallQueue 4 (CollapseNodeFn 11), Settle] ?rt')) =
     proj ex_expanded"
    using failing_fn_rejects_first_caller_and_stalls [of ?rt' ex_insp] by simp
  from 1 2 3 show ?thesis by simp
qed

text \<open>
  C3, at a failing input. Caller 1 has queued the expansion of node 11, which is
  awaited, and no promise is in place. Caller 2 calls \<^verbatim>\<open>flushQueue\<close> (through
  \<^verbatim>\<open>makeAvailable\<close>): the call creates the promise and returns at once, with
  the function still in the queue and the rows as they were.
\<close>

theorem flushQueue_first_call_returns_at_once:
  "run ex_insp [CallQueue 1 (ExpandNodeFn 11), CallFlushQueue 2] (start ex_rooted) =
     \<lparr>this = ex_rooted\<lparr>uu_queue := [ExpandNodeFn 11], uu_promiseQueueEmpty := Some []\<rparr>,
      awaiting = Some 1, settled = [(2, Inr ())]\<rparr> \<and>
   makeAvailable 2 (ex_rooted\<lparr>uu_queue := [ExpandNodeFn 11]\<rparr>) =
     (True, ex_rooted\<lparr>uu_queue := [ExpandNodeFn 11], uu_promiseQueueEmpty := Some []\<rparr>)"
  by (simp add: run_def start_def makeAvailable_def flushQueue_def ex_rooted_def)

subsection \<open>The recursion of \<^verbatim>\<open>_removeChildRows\<close> returns\<close>

text \<open>
  In a store whose child rows were all created after their parents, the depth that
  \<open>u_removeChildRows\<close> allows is enough: the recursion returns.
\<close>

lemma same_shape_refl: "same_shape p p"
  unfolding same_shape_def by simp

lemma same_shape_trans: "same_shape p q \<Longrightarrow> same_shape q r \<Longrightarrow> same_shape p r"
  unfolding same_shape_def by metis

lemma same_shape_forward: "same_shape p q \<Longrightarrow> forward p \<Longrightarrow> forward q"
  unfolding same_shape_def forward_def by metis

lemma childRowMetas_unbind:
  "childRowMetas (xs[r := (xs ! r)\<lparr>childrenChangeBinding := None\<rparr>] ! a) = childRowMetas (xs ! a)"
proof (cases "r < length xs")
  case True
  then show ?thesis by (cases "a = r") simp_all
next
  case False
  then have "length xs \<le> r" by simp
  then show ?thesis by (simp add: list_update_beyond)
qed

lemma same_shape_dispose: "same_shape p (uu_disposeRowMetaData a p)"
proof (cases a)
  case (RowObject r)
  show ?thesis
  proof (cases "childrenChangeBinding (objects p ! r)")
    case None
    then show ?thesis by (simp add: RowObject same_shape_refl)
  next
    case (Some b)
    then show ?thesis
      unfolding same_shape_def by (simp add: RowObject setRow_def childRowMetas_unbind)
  qed
next
  case (PropertyName k)
  then show ?thesis by (simp add: same_shape_refl)
qed

lemma each_returns:
  assumes rec: "\<And>c q tr. c \<in> set cs \<Longrightarrow> same_shape p q \<Longrightarrow>
      \<exists>q' tr'. f c (q, tr) = Some (q', tr') \<and> same_shape q q'"
    and "same_shape p q"
  shows "\<exists>q' tr'. removeChildRows_each f cs (q, tr) = Some (q', tr') \<and> same_shape q q'"
  using assms
proof (induction cs arbitrary: q tr)
  case Nil
  then show ?case by (simp add: same_shape_refl)
next
  case (Cons c cs)
  from Cons.prems(1) [of c q "tr @ [c]"] Cons.prems(2)
  obtain q1 tr1 where 1: "f c (q, tr @ [c]) = Some (q1, tr1)" "same_shape q q1" by auto
  let ?q2 = "uu_disposeRowMetaData (RowObject c) q1"
  have 2: "same_shape q ?q2"
    using 1(2) same_shape_dispose [of q1 "RowObject c"] by (rule same_shape_trans)
  with Cons.prems(2) have 3: "same_shape p ?q2" by (rule same_shape_trans)
  have "\<exists>q' tr'. removeChildRows_each f cs (?q2, tr1) = Some (q', tr') \<and> same_shape ?q2 q'"
    by (rule Cons.IH [OF _ 3]) (rule Cons.prems(1), simp_all)
  then obtain q' tr' where 4: "removeChildRows_each f cs (?q2, tr1) = Some (q', tr')"
    "same_shape ?q2 q'" by blast
  from 2 4(2) have "same_shape q q'" by (rule same_shape_trans)
  with 1 4(1) show ?case by simp
qed

lemma rec_returns:
  assumes "forward p" and "r < length (objects p)" and "length (objects p) - r \<le> k"
  shows "\<exists>q tr'. removeChildRows_rec (Suc k) r (p, tr) = Some (q, tr') \<and> same_shape p q"
  using assms
proof (induction k arbitrary: r p tr)
  case 0
  then show ?case by simp
next
  case (Suc k)
  show ?case
  proof (cases "childRowMetas (objects p ! r)")
    case None
    then show ?thesis by (simp add: same_shape_refl)
  next
    case (Some cs)
    have sub: "\<And>c q tr. c \<in> set cs \<Longrightarrow> same_shape p q \<Longrightarrow>
        \<exists>q' tr'. removeChildRows_rec (Suc k) c (q, tr) = Some (q', tr') \<and> same_shape q q'"
    proof -
      fix c q tr
      assume c: "c \<in> set cs" and s: "same_shape p q"
      from Suc.prems(1) have "r < length (objects p) \<and> childRowMetas (objects p ! r) = Some cs \<longrightarrow>
          (\<forall>c \<in> set cs. r < c \<and> c < length (objects p))"
        unfolding forward_def by (elim allE)
      with Suc.prems(2) Some c have rc: "r < c" "c < length (objects p)"
        by blast+
      from s Suc.prems(1) have f: "forward q" by (rule same_shape_forward)
      from s have l: "length (objects q) = length (objects p)" by (simp add: same_shape_def)
      from rc Suc.prems(3) l have "c < length (objects q)" "length (objects q) - c \<le> k" by auto
      from Suc.IH [OF f this]
      show "\<exists>q' tr'. removeChildRows_rec (Suc k) c (q, tr) = Some (q', tr') \<and> same_shape q q'" .
    qed
    have step: "removeChildRows_rec (Suc (Suc k)) r (p, tr) =
        removeChildRows_each (removeChildRows_rec (Suc k)) cs (p, tr)"
      using Some by simp
    from each_returns [of cs p "removeChildRows_rec (Suc k)" p tr, OF sub same_shape_refl]
    show ?thesis unfolding step .
  qed
qed

lemma u_removeChildRows_returns:
  assumes "forward p" and "rm < length (objects p)"
  shows "u_removeChildRows rm p \<noteq> None"
proof -
  from rec_returns [OF assms, of "length (objects p)" "[]"]
  obtain q tr' where "removeChildRows_rec (Suc (length (objects p))) rm (p, []) = Some (q, tr')"
    by auto
  then show ?thesis by (simp add: u_removeChildRows_def del: removeChildRows_rec.simps)
qed

lemma u_collapseNode_returns:
  assumes f: "forward p"
    and refs: "\<forall>x r. uu_rowMetaDataByNode p x = Some r \<longrightarrow> r < length (objects p)"
  shows "u_collapseNode n p \<noteq> None"
proof (cases "uu_rowMetaDataByNode p n")
  case None
  then show ?thesis by (simp add: u_collapseNode_def)
next
  case (Some rm)
  with refs have rm: "rm < length (objects p)" by blast
  let ?p1 = "uu_disposeRowMetaData (RowObject rm) p"
  have s: "same_shape p ?p1" by (rule same_shape_dispose)
  then have f1: "forward ?p1" using f by (rule same_shape_forward)
  from s rm have "rm < length (objects ?p1)" by (simp add: same_shape_def)
  with f1 have r: "u_removeChildRows rm ?p1 \<noteq> None" by (rule u_removeChildRows_returns)
  have p1: "?p1 = (case childrenChangeBinding (objects p ! rm) of
                         None \<Rightarrow> p
                       | Some b \<Rightarrow>
                           setRow rm (\<lambda>m. m\<lparr>childrenChangeBinding := None\<rparr>)
                             (p\<lparr>bindingsDisposed := bindingsDisposed p @ [b]\<rparr>))"
    by simp
  from r show ?thesis
    unfolding u_collapseNode_def Some p1 [symmetric]
    by (auto simp: Let_def split: option.splits sum.splits prod.splits)
qed

subsection \<open>Expanding and collapsing again\<close>

lemma set_nonNull: "c \<in> set (nonNull cs) \<longleftrightarrow> Some c \<in> set cs"
  by (induction cs rule: nonNull.induct) auto

lemma expandNode_loop_eq:
  "expandNode_loop insp lv cs acc p =
     (acc @ [length (objects p) ..< length (objects p) + length (nonNull cs)],
      p\<lparr>objects := objects p @ newRows insp lv (nonNull cs),
        uu_rowMetaDataByNode := (uu_rowMetaDataByNode p)
          (nonNull cs [\<mapsto>] [length (objects p) ..< length (objects p) + length (nonNull cs)])\<rparr>)"
proof (induction cs arbitrary: acc p)
  case Nil
  then show ?case by (simp add: newRows_def)
next
  case (Cons x cs)
  show ?case
  proof (cases x)
    case None
    then show ?thesis by (simp add: Cons.IH)
  next
    case (Some c)
    have upt: "[length (objects p) ..< length (objects p) + length (nonNull (Some c # cs))] =
        length (objects p) # [Suc (length (objects p)) ..< Suc (length (objects p)) + length (nonNull cs)]"
      by (subst upt_conv_Cons) (simp_all del: upt_Suc)
    let ?k = "length (objects p)"
    let ?p3 = "p\<lparr>objects := objects p @ [mkRow c (lv + 1) (insp_canHaveChildren insp (Some c)) None None],
               uu_rowMetaDataByNode := (uu_rowMetaDataByNode p)(c \<mapsto> ?k)\<rparr>"
    have step: "expandNode_loop insp lv (Some c # cs) acc p =
        expandNode_loop insp lv cs (acc @ [?k]) ?p3"
      by (simp add: uu_createRowMetaData_def setRow_def mkRow_def)
    have len: "length (objects ?p3) = Suc ?k" and idx: "uu_rowMetaDataByNode ?p3 = (uu_rowMetaDataByNode p)(c \<mapsto> ?k)"
      and obj: "objects ?p3 = objects p @ [mkRow c (lv + 1) (insp_canHaveChildren insp (Some c)) None None]"
      by simp_all
    show ?thesis
      unfolding Some step Cons.IH [of "acc @ [?k]" ?p3] upt len idx obj
      by (simp add: newRows_def del: upt_Suc)
  qed
qed

lemma after_slice:
  "(if i = int (length xs) - 1 then [] else slice_from xs (i + 1)) = drop (nat (i + 1)) xs"
  by (auto simp: slice_from_def)

lemma u_expandNode_collapsed:
  assumes idx: "uu_rowMetaDataByNode p n = Some rm"
    and can: "canHaveChildren (objects p ! rm) = Some True"
    and col: "childRowMetas (objects p ! rm) = None"
    and ref: "rm < length (objects p)"
  shows "u_expandNode insp n p = (Inr (), expanded insp n rm p)"
proof -
  have i: "nat (indexOf (uu_rowMetaDatas p) rm + 1) \<le> length (uu_rowMetaDatas p)"
  proof (cases "rm \<in> set (uu_rowMetaDatas p)")
    case True
    from indexOf_in [OF this] show ?thesis by auto
  next
    case False
    then show ?thesis by (simp add: indexOf_notin)
  qed
  show ?thesis
    using assms i
    by (simp add: u_expandNode_def u_getNodeMetaData_def createChildrenChangeBinding_def
        setRow_def expandNode_loop_eq after_slice slice_to_def fireChangeSize_def expanded_def
        Let_def list_update_append nth_append min_def)
qed

lemma removeChildRows_each_leaves:
  assumes "\<forall>c \<in> set cs. childRowMetas (objects p ! c) = None \<and>
      childrenChangeBinding (objects p ! c) = None"
  shows "removeChildRows_each (removeChildRows_rec (Suc j)) cs (p, tr) = Some (p, tr @ cs)"
  using assms by (induction cs arbitrary: tr) simp_all

lemma removeChildRows_drop_eq:
  assumes "\<forall>c \<in> set rs. node (objects p ! c) \<noteq> None"
  shows "removeChildRows_drop rs p =
     (Inr (), p\<lparr>uu_rowMetaDataByNode :=
                  fold (\<lambda>c m. m(the (node (objects p ! c)) := None)) rs (uu_rowMetaDataByNode p),
                uu_rowMetaDatas := fold remove1 rs (uu_rowMetaDatas p)\<rparr>)"
  using assms
proof (induction rs arbitrary: p)
  case Nil
  then show ?case by simp
next
  case (Cons c rs)
  from Cons.prems obtain n where n: "node (objects p ! c) = Some n" by auto
  let ?p = "p\<lparr>uu_rowMetaDataByNode := (uu_rowMetaDataByNode p)(n := None),
              uu_rowMetaDatas := remove1 c (uu_rowMetaDatas p)\<rparr>"
  have "\<forall>c \<in> set rs. node (objects ?p ! c) \<noteq> None" using Cons.prems by simp
  from Cons.IH [OF this] n show ?case by simp
qed

lemma fold_delete_apply:
  "fold (\<lambda>c m. m(g c := None)) rs m x = (if x \<in> g ` set rs then None else m x)"
  by (induction rs arbitrary: m) auto

lemma fold_remove1_inserted:
  "set xs \<inter> set cs = {} \<Longrightarrow> fold remove1 cs (xs @ cs @ ys) = xs @ ys"
proof (induction cs)
  case Nil
  then show ?case by simp
next
  case (Cons c cs)
  then have "c \<notin> set xs" and "set xs \<inter> set cs = {}" by auto
  with Cons.IH show ?case by (simp add: remove1_append)
qed


lemma nth_newRows:
  "j < length ns \<Longrightarrow> newRows insp lv ns ! j =
     mkRow (ns ! j) (lv + 1) (insp_canHaveChildren insp (Some (ns ! j))) None None"
  by (simp add: newRows_def)

lemma u_collapseNode_expanded:
  assumes idx: "uu_rowMetaDataByNode p n = Some rm"
    and col: "childRowMetas (objects p ! rm) = None"
    and ref: "rm < length (objects p)"
    and rows: "\<forall>r \<in> set (uu_rowMetaDatas p). r < length (objects p)"
    and fresh: "\<forall>c. Some c \<in> set (insp_getChildrenOf insp n) \<longrightarrow> uu_rowMetaDataByNode p c = None"
  shows "u_collapseNode n (expanded insp n rm p) =
     Some (Inr (),
       p\<lparr>objects := (objects p)[rm := (objects p ! rm)\<lparr>childrenChangeBinding := None\<rparr>] @
            newRows insp (level (objects p ! rm)) (nonNull (insp_getChildrenOf insp n)),
         bindingsCreated := bindingsCreated p @ [n],
         bindingsDisposed := bindingsDisposed p @ [length (bindingsCreated p)],
         changeSize := changeSize p @
           [length (uu_rowMetaDatas p) + length (nonNull (insp_getChildrenOf insp n)),
            length (uu_rowMetaDatas p)]\<rparr>)"
proof -
  define k where "k = length (objects p)"
  define ns where "ns = nonNull (insp_getChildrenOf insp n)"
  define kids where "kids = [k ..< k + length ns]"
  define i where "i = nat (indexOf (uu_rowMetaDatas p) rm + 1)"
  define q where "q = expanded insp n rm p"
  define old where "old = (objects p)
      [rm := (objects p ! rm)\<lparr>childrenChangeBinding := Some (length (bindingsCreated p)),
                               childRowMetas := Some kids\<rparr>]"
  have q: "q = p\<lparr>uu_rowMetaDatas := take i (uu_rowMetaDatas p) @ kids @ drop i (uu_rowMetaDatas p),
           uu_rowMetaDataByNode := (uu_rowMetaDataByNode p)(ns [\<mapsto>] kids),
           objects := old @ newRows insp (level (objects p ! rm)) ns,
           bindingsCreated := bindingsCreated p @ [n],
           changeSize := changeSize p @ [length (uu_rowMetaDatas p) + length ns]\<rparr>"
    by (simp add: q_def expanded_def Let_def k_def ns_def kids_def i_def old_def)
  have lold: "length old = k" by (simp add: old_def k_def)
  have n_notin: "n \<notin> set ns"
    using idx fresh by (auto simp: ns_def set_nonNull)
  have qidx: "uu_rowMetaDataByNode q n = Some rm"
    using n_notin idx by (simp add: q)
  have qrm: "objects q ! rm = (objects p ! rm)\<lparr>childrenChangeBinding := Some (length (bindingsCreated p)),
                               childRowMetas := Some kids\<rparr>"
    using ref by (simp add: q nth_append old_def)
  define old1 where "old1 = (objects p)[rm := (objects p ! rm)\<lparr>childRowMetas := Some kids,
                               childrenChangeBinding := None\<rparr>]"
  define p1 where "p1 = q\<lparr>bindingsDisposed := bindingsDisposed p @ [length (bindingsCreated p)],
      objects := old1 @ newRows insp (level (objects p ! rm)) ns\<rparr>"
  have p1: "setRow rm (\<lambda>m. m\<lparr>childrenChangeBinding := None\<rparr>)
      (q\<lparr>bindingsDisposed := bindingsDisposed q @ [length (bindingsCreated p)]\<rparr>) = p1"
    using ref by (simp add: setRow_def p1_def q list_update_append nth_append old_def old1_def)
  have lold1: "length old1 = k" by (simp add: old1_def k_def)
  have p1rm: "objects p1 ! rm = (objects p ! rm)\<lparr>childRowMetas := Some kids,
                               childrenChangeBinding := None\<rparr>"
    using ref by (simp add: p1_def nth_append old1_def)
  have kid: "\<And>c. c \<in> set kids \<Longrightarrow> objects p1 ! c =
      mkRow (ns ! (c - k)) (level (objects p ! rm) + 1)
        (insp_canHaveChildren insp (Some (ns ! (c - k)))) None None"
    by (auto simp: kids_def p1_def nth_append lold1 nth_newRows)
  have leaves: "\<forall>c \<in> set kids. childRowMetas (objects p1 ! c) = None \<and>
      childrenChangeBinding (objects p1 ! c) = None"
    using kid by (simp add: mkRow_def)
  have len1: "length (objects p1) = Suc (k + length ns - 1)"
    using ref by (simp add: p1_def lold1 newRows_def k_def)
  have rec: "removeChildRows_rec (Suc (length (objects p1))) rm (p1, []) = Some (p1, kids)"
    using removeChildRows_each_leaves [OF leaves, of "k + length ns - 1" "[]"]
    by (simp add: p1rm len1)
  define p2 where "p2 = p1\<lparr>objects := (objects p)[rm := (objects p ! rm)\<lparr>childrenChangeBinding := None\<rparr>] @
      newRows insp (level (objects p ! rm)) ns\<rparr>"
  have same: "(objects p ! rm)\<lparr>childrenChangeBinding := None, childRowMetas := None\<rparr> =
      (objects p ! rm)\<lparr>childrenChangeBinding := None\<rparr>"
    using col by (cases "objects p ! rm") simp
  have p2: "setRow rm (\<lambda>m. m\<lparr>childRowMetas := None\<rparr>) p1 = p2"
    using ref
    by (simp add: setRow_def p2_def p1_def list_update_append nth_append old1_def same)
  have kid2: "\<And>c. c \<in> set kids \<Longrightarrow> node (objects p2 ! c) = Some (ns ! (c - k))"
    by (auto simp: kids_def p2_def nth_append nth_newRows mkRow_def k_def)
  then have nodes: "\<forall>c \<in> set kids. node (objects p2 ! c) \<noteq> None" by simp
  have img: "(\<lambda>c. the (node (objects p2 ! c))) ` set kids = set ns"
  proof -
    have "(\<lambda>c. the (node (objects p2 ! c))) ` set kids = (\<lambda>c. ns ! (c - k)) ` set kids"
      using kid2 by (intro image_cong) simp_all
    also have "\<dots> = set (map (\<lambda>c. ns ! (c - k)) kids)" by simp
    also have "map (\<lambda>c. ns ! (c - k)) kids = map (\<lambda>j. ns ! j) [0 ..< length ns]"
    proof -
      have "kids = map (\<lambda>j. j + k) [0 ..< length ns]"
        by (simp add: kids_def map_add_upt add.commute)
      then show ?thesis by (simp add: o_def)
    qed
    also have "\<dots> = ns" by (rule map_nth)
    finally show ?thesis .
  qed
  have ridx: "fold (\<lambda>c m. m(the (node (objects p2 ! c)) := None)) kids (uu_rowMetaDataByNode p2) =
      uu_rowMetaDataByNode p"
  proof
    fix x
    show "fold (\<lambda>c m. m(the (node (objects p2 ! c)) := None)) kids (uu_rowMetaDataByNode p2) x =
      uu_rowMetaDataByNode p x"
      using fresh
      by (simp add: fold_delete_apply img) (auto simp: p2_def p1_def q ns_def set_nonNull)
  qed
  have disj: "set (take i (uu_rowMetaDatas p)) \<inter> set kids = {}"
    using rows by (auto simp: kids_def k_def dest!: in_set_takeD)
  have rrows: "fold remove1 kids (uu_rowMetaDatas p2) = uu_rowMetaDatas p"
    using fold_remove1_inserted [OF disj, of "drop i (uu_rowMetaDatas p)"]
    by (simp add: p2_def p1_def q)
  have drop: "removeChildRows_drop kids p2 =
      (Inr (), p2\<lparr>uu_rowMetaDataByNode := uu_rowMetaDataByNode p,
                 uu_rowMetaDatas := uu_rowMetaDatas p\<rparr>)"
    by (simp add: removeChildRows_drop_eq [OF nodes] ridx rrows)
  have "u_collapseNode n q =
      Some (Inr (), fireChangeSize (p2\<lparr>uu_rowMetaDataByNode := uu_rowMetaDataByNode p,
                 uu_rowMetaDatas := uu_rowMetaDatas p\<rparr>))"
    by (simp add: u_collapseNode_def qidx qrm p1 u_removeChildRows_def rec p2 drop
        del: removeChildRows_rec.simps)
  then show ?thesis
    by (simp add: q_def [symmetric] fireChangeSize_def p2_def p1_def q ns_def)
qed


lemma queue_first_returns:
  assumes "uu_queue s = []" and "call insp fn (proj s) = Some (Inr (), p1)"
  shows "queue insp fn s = Some (Inr (), s\<lparr>proj := p1, uu_queue := [], uu_promiseQueueEmpty := None\<rparr>)"
  using assms by (simp add: queue_def)

text \<open>Expanding keeps the child rows behind their parents in the store.\<close>

lemma ex_forward: "forward (proj ex_expanded)"
  unfolding forward_def
  by (auto simp: ex_expanded_def mkRow_def nth_Cons' split: if_splits)

lemma forward_expanded:
  assumes f: "forward p" and rm: "rm < length (objects p)"
  shows "forward (expanded insp n rm p)"
  unfolding forward_def
proof (intro allI impI ballI)
  fix r cs c
  let ?q = "expanded insp n rm p"
  let ?k = "length (objects p)"
  let ?ns = "nonNull (insp_getChildrenOf insp n)"
  assume a: "r < length (objects ?q) \<and> childRowMetas (objects ?q ! r) = Some cs" and c: "c \<in> set cs"
  have len: "length (objects ?q) = ?k + length ?ns"
    by (simp add: expanded_def Let_def newRows_def)
  consider "r = rm" | "r < ?k" "r \<noteq> rm" | "?k \<le> r" by linarith
  then show "r < c \<and> c < length (objects ?q)"
  proof cases
    case 1
    with rm a have "cs = [?k ..< ?k + length ?ns]"
      by (simp add: expanded_def Let_def nth_append)
    with c rm 1 len show ?thesis by simp
  next
    case 2
    with a have "childRowMetas (objects p ! r) = Some cs"
      by (simp add: expanded_def Let_def nth_append)
    with f 2(1) c have "r < c \<and> c < ?k" unfolding forward_def by blast
    with len show ?thesis by simp
  next
    case 3
    from a have "r < length (objects ?q)" ..
    with 3 len have "r - ?k < length ?ns" by linarith
    with 3 a have False
      by (simp add: expanded_def Let_def nth_append nth_newRows mkRow_def)
    then show ?thesis ..
  qed
qed

subsection \<open>The data model\<close>

lemma consistent_refs:
  "consistent insp R p \<Longrightarrow> uu_rowMetaDataByNode p x = Some r \<Longrightarrow> r < length (objects p)"
  unfolding consistent_def by blast

lemma consistent_node:
  "consistent insp R p \<Longrightarrow> uu_rowMetaDataByNode p x = Some r \<Longrightarrow> node (objects p ! r) = Some x"
  unfolding consistent_def by blast

lemma consistent_rows:
  "consistent insp R p \<Longrightarrow> r \<in> set (uu_rowMetaDatas p) \<Longrightarrow> r < length (objects p)"
  unfolding consistent_def by blast

lemma consistent_forward: "consistent insp R p \<Longrightarrow> forward p"
  unfolding consistent_def by blast

lemma consistent_child:
  "consistent insp R p \<Longrightarrow> uu_rowMetaDataByNode p x = Some r \<Longrightarrow>
   childRowMetas (objects p ! r) = Some cs \<Longrightarrow> c \<in> set cs \<Longrightarrow>
   \<exists>z. node (objects p ! c) = Some z \<and> uu_rowMetaDataByNode p z = Some c \<and>
       insp_getParentOf insp z = Some x"
  unfolding consistent_def by blast

lemma consistent_parent:
  "consistent insp R p \<Longrightarrow> uu_rowMetaDataByNode p z = Some c \<Longrightarrow> z \<noteq> R \<Longrightarrow>
   \<exists>x r cs. insp_getParentOf insp z = Some x \<and> uu_rowMetaDataByNode p x = Some r \<and>
       childRowMetas (objects p ! r) = Some cs \<and> c \<in> set cs"
  unfolding consistent_def by blast

lemma tree_parent:
  "tree insp R \<Longrightarrow> Some c \<in> set (insp_getChildrenOf insp n) \<Longrightarrow> insp_getParentOf insp c = Some n"
  unfolding tree_def by blast

lemma tree_root: "tree insp R \<Longrightarrow> insp_getParentOf insp R = None"
  unfolding tree_def by blast

lemma tree_distinct: "tree insp R \<Longrightarrow> distinct (nonNull (insp_getChildrenOf insp n))"
  unfolding tree_def by blast

text \<open>The children of a collapsed node are not in the dictionary.\<close>

lemma collapsed_children_fresh:
  assumes t: "tree insp R" and c: "consistent insp R p"
    and idx: "uu_rowMetaDataByNode p n = Some rm"
    and col: "childRowMetas (objects p ! rm) = None"
    and ch: "Some c \<in> set (insp_getChildrenOf insp n)"
  shows "uu_rowMetaDataByNode p c = None"
proof (rule ccontr)
  assume "uu_rowMetaDataByNode p c \<noteq> None"
  then obtain rc where rc: "uu_rowMetaDataByNode p c = Some rc" by blast
  from t ch have par: "insp_getParentOf insp c = Some n" by (rule tree_parent)
  with t have "c \<noteq> R" using tree_root [OF t] by auto
  from consistent_parent [OF c rc this] obtain x r cs where
    x: "insp_getParentOf insp c = Some x" "uu_rowMetaDataByNode p x = Some r"
       "childRowMetas (objects p ! r) = Some cs" by blast
  from x(1) par have "x = n" by simp
  with x(2) idx have "r = rm" by simp
  with x(3) col show False by simp
qed

lemma ex_tree: "tree ex_insp 10"
  unfolding tree_def by (simp add: ex_insp_def)

lemma ex_consistent: "consistent ex_insp 10 (proj ex_rooted)"
  unfolding consistent_def forward_def
  by (auto simp: ex_rooted_def ex_insp_def mkRow_def nth_Cons' split: if_splits)

subsection \<open>Expanding keeps the data model\<close>

lemma map_upds_nth:
  "distinct xs \<Longrightarrow> length xs = length ys \<Longrightarrow> j < length xs \<Longrightarrow>
   (m(xs [\<mapsto>] ys)) (xs ! j) = Some (ys ! j)"
proof (induction xs arbitrary: ys j m)
  case Nil
  then show ?case by simp
next
  case (Cons a as)
  then obtain b bs where ys: "ys = b # bs" by (cases ys) auto
  show ?case
  proof (cases j)
    case 0
    with Cons.prems ys show ?thesis by simp
  next
    case (Suc i)
    from Cons.prems ys Suc have "distinct as" "length as = length bs" "i < length as" by simp_all
    then show ?thesis
      unfolding ys Suc map_upds_Cons nth_Cons_Suc by (rule Cons.IH)
  qed
qed

lemma expanded_length:
  "length (objects (expanded insp n rm p)) =
     length (objects p) + length (nonNull (insp_getChildrenOf insp n))"
  by (simp add: expanded_def Let_def newRows_def)

lemma expanded_old_node:
  "a < length (objects p) \<Longrightarrow> node (objects (expanded insp n rm p) ! a) = node (objects p ! a)"
  by (cases "a = rm") (simp_all add: expanded_def Let_def nth_append)

lemma expanded_old_children:
  "a < length (objects p) \<Longrightarrow> a \<noteq> rm \<Longrightarrow>
   childRowMetas (objects (expanded insp n rm p) ! a) = childRowMetas (objects p ! a)"
  by (simp add: expanded_def Let_def nth_append)

lemma expanded_rm_children:
  "rm < length (objects p) \<Longrightarrow>
   childRowMetas (objects (expanded insp n rm p) ! rm) =
     Some [length (objects p) ..< length (objects p) + length (nonNull (insp_getChildrenOf insp n))]"
  by (simp add: expanded_def Let_def nth_append)

lemma expanded_new_row:
  "j < length (nonNull (insp_getChildrenOf insp n)) \<Longrightarrow>
   node (objects (expanded insp n rm p) ! (length (objects p) + j)) =
     Some (nonNull (insp_getChildrenOf insp n) ! j) \<and>
   childRowMetas (objects (expanded insp n rm p) ! (length (objects p) + j)) = None"
  by (simp add: expanded_def Let_def nth_append nth_newRows mkRow_def)

lemma expanded_index_old:
  "z \<notin> set (nonNull (insp_getChildrenOf insp n)) \<Longrightarrow>
   uu_rowMetaDataByNode (expanded insp n rm p) z = uu_rowMetaDataByNode p z"
  by (simp add: expanded_def Let_def)

lemma expanded_index_new:
  "distinct (nonNull (insp_getChildrenOf insp n)) \<Longrightarrow>
   j < length (nonNull (insp_getChildrenOf insp n)) \<Longrightarrow>
   uu_rowMetaDataByNode (expanded insp n rm p) (nonNull (insp_getChildrenOf insp n) ! j) =
     Some (length (objects p) + j)"
  by (simp add: expanded_def Let_def map_upds_nth)

lemma expanded_rows:
  "set (uu_rowMetaDatas (expanded insp n rm p)) \<subseteq>
     set (uu_rowMetaDatas p) \<union>
     {length (objects p) ..< length (objects p) + length (nonNull (insp_getChildrenOf insp n))}"
  by (auto simp: expanded_def Let_def dest: in_set_takeD in_set_dropD)

text \<open>The data model, as a rule to show it.\<close>

lemma consistentI:
  assumes "\<And>x r. uu_rowMetaDataByNode p x = Some r \<Longrightarrow>
        r < length (objects p) \<and> node (objects p ! r) = Some x"
    and "\<And>r. r \<in> set (uu_rowMetaDatas p) \<Longrightarrow> r < length (objects p)"
    and "forward p"
    and "\<And>x r cs c. uu_rowMetaDataByNode p x = Some r \<Longrightarrow>
        childRowMetas (objects p ! r) = Some cs \<Longrightarrow> c \<in> set cs \<Longrightarrow>
        \<exists>z. node (objects p ! c) = Some z \<and> uu_rowMetaDataByNode p z = Some c \<and>
           insp_getParentOf insp z = Some x"
    and "\<And>z c. uu_rowMetaDataByNode p z = Some c \<Longrightarrow> z \<noteq> R \<Longrightarrow>
        \<exists>x r cs. insp_getParentOf insp z = Some x \<and> uu_rowMetaDataByNode p x = Some r \<and>
           childRowMetas (objects p ! r) = Some cs \<and> c \<in> set cs"
  shows "consistent insp R p"
  unfolding consistent_def using assms by blast

text \<open>Expanding a collapsed node of the dictionary keeps the data model.\<close>

lemma consistent_expanded:
  assumes t: "tree insp R" and c: "consistent insp R p"
    and idx: "uu_rowMetaDataByNode p n = Some rm"
    and col: "childRowMetas (objects p ! rm) = None"
  shows "consistent insp R (expanded insp n rm p)"
proof (rule consistentI)
  let ?q = "expanded insp n rm p"
  let ?ns = "nonNull (insp_getChildrenOf insp n)"
  let ?k = "length (objects p)"
  from c idx have rm: "rm < ?k" by (rule consistent_refs)
  from c idx have nrm: "node (objects p ! rm) = Some n" by (rule consistent_node)
  from t have dist: "distinct ?ns" by (rule tree_distinct)
  have fresh: "\<And>z. z \<in> set ?ns \<Longrightarrow> uu_rowMetaDataByNode p z = None"
    using collapsed_children_fresh [OF t c idx col] by (simp add: set_nonNull)
  have old: "\<And>z r. uu_rowMetaDataByNode p z = Some r \<Longrightarrow> uu_rowMetaDataByNode ?q z = Some r"
  proof -
    fix z r assume z: "uu_rowMetaDataByNode p z = Some r"
    with fresh have "z \<notin> set ?ns" by force
    with z show "uu_rowMetaDataByNode ?q z = Some r" by (simp add: expanded_index_old)
  qed
  have new: "\<And>j. j < length ?ns \<Longrightarrow>
      uu_rowMetaDataByNode ?q (?ns ! j) = Some (?k + j) \<and>
      node (objects ?q ! (?k + j)) = Some (?ns ! j) \<and>
      childRowMetas (objects ?q ! (?k + j)) = None \<and>
      insp_getParentOf insp (?ns ! j) = Some n"
  proof -
    fix j assume j: "j < length ?ns"
    then have "?ns ! j \<in> set ?ns" by simp
    then have "Some (?ns ! j) \<in> set (insp_getChildrenOf insp n)" by (simp add: set_nonNull)
    with t have "insp_getParentOf insp (?ns ! j) = Some n" by (rule tree_parent)
    with j dist show "uu_rowMetaDataByNode ?q (?ns ! j) = Some (?k + j) \<and>
      node (objects ?q ! (?k + j)) = Some (?ns ! j) \<and>
      childRowMetas (objects ?q ! (?k + j)) = None \<and>
      insp_getParentOf insp (?ns ! j) = Some n"
      by (simp add: expanded_index_new expanded_new_row)
  qed
  have split: "\<And>z r. uu_rowMetaDataByNode ?q z = Some r \<Longrightarrow>
      (uu_rowMetaDataByNode p z = Some r \<and> z \<notin> set ?ns) \<or>
      (\<exists>j<length ?ns. z = ?ns ! j \<and> r = ?k + j)"
  proof -
    fix z r assume z: "uu_rowMetaDataByNode ?q z = Some r"
    show "(uu_rowMetaDataByNode p z = Some r \<and> z \<notin> set ?ns) \<or>
      (\<exists>j<length ?ns. z = ?ns ! j \<and> r = ?k + j)"
    proof (cases "z \<in> set ?ns")
      case True
      then obtain j where j: "j < length ?ns" "z = ?ns ! j" by (auto simp: in_set_conv_nth)
      with new [of j] z show ?thesis by auto
    next
      case False
      with z show ?thesis by (simp add: expanded_index_old)
    qed
  qed
  {
    fix x r assume x: "uu_rowMetaDataByNode ?q x = Some r"
    from split [OF x] show "r < length (objects ?q) \<and> node (objects ?q ! r) = Some x"
    proof
      assume "uu_rowMetaDataByNode p x = Some r \<and> x \<notin> set ?ns"
      then have o: "uu_rowMetaDataByNode p x = Some r" ..
      from c o have "r < ?k" "node (objects p ! r) = Some x"
        by (rule consistent_refs, rule consistent_node)
      then show ?thesis by (simp add: expanded_length expanded_old_node)
    next
      assume "\<exists>j<length ?ns. x = ?ns ! j \<and> r = ?k + j"
      then obtain j where "j < length ?ns" "x = ?ns ! j" "r = ?k + j" by blast
      with new [of j] show ?thesis by (simp add: expanded_length)
    qed
  next
    fix r assume "r \<in> set (uu_rowMetaDatas ?q)"
    with expanded_rows [of insp n rm p]
    have "r \<in> set (uu_rowMetaDatas p) \<or> r < ?k + length ?ns" by auto
    then show "r < length (objects ?q)"
      using consistent_rows [OF c, of r] by (auto simp: expanded_length)
  next
    from consistent_forward [OF c] rm show "forward ?q" by (rule forward_expanded)
  next
    fix x r cs c'
    assume x: "uu_rowMetaDataByNode ?q x = Some r"
      and cs: "childRowMetas (objects ?q ! r) = Some cs" and c': "c' \<in> set cs"
    from split [OF x]
    show "\<exists>z. node (objects ?q ! c') = Some z \<and> uu_rowMetaDataByNode ?q z = Some c' \<and>
           insp_getParentOf insp z = Some x"
    proof
      assume "\<exists>j<length ?ns. x = ?ns ! j \<and> r = ?k + j"
      then obtain j where "j < length ?ns" "r = ?k + j" by blast
      with new [of j] cs show ?thesis by simp
    next
      assume "uu_rowMetaDataByNode p x = Some r \<and> x \<notin> set ?ns"
      then have o: "uu_rowMetaDataByNode p x = Some r" ..
      from c o have r: "r < ?k" and nr: "node (objects p ! r) = Some x"
        by (rule consistent_refs, rule consistent_node)
      show ?thesis
      proof (cases "r = rm")
        case True
        with nr nrm have xn: "x = n" by simp
        from True cs rm have "cs = [?k ..< ?k + length ?ns]" by (simp add: expanded_rm_children)
        with c' obtain j where j: "j < length ?ns" "c' = ?k + j"
          by (auto simp: le_iff_add)
        with new [of j] xn show ?thesis by auto
      next
        case False
        with r cs have "childRowMetas (objects p ! r) = Some cs"
          by (simp add: expanded_old_children)
        from consistent_child [OF c o this c'] obtain z where
          z: "node (objects p ! c') = Some z" "uu_rowMetaDataByNode p z = Some c'"
             "insp_getParentOf insp z = Some x" by blast
        from c z(2) have "c' < ?k" by (rule consistent_refs)
        with z(1) have "node (objects ?q ! c') = Some z" by (simp add: expanded_old_node)
        with old [OF z(2)] z(3) show ?thesis by blast
      qed
    qed
  next
    fix z c' assume z: "uu_rowMetaDataByNode ?q z = Some c'" and zr: "z \<noteq> R"
    from split [OF z]
    show "\<exists>x r cs. insp_getParentOf insp z = Some x \<and> uu_rowMetaDataByNode ?q x = Some r \<and>
           childRowMetas (objects ?q ! r) = Some cs \<and> c' \<in> set cs"
    proof
      assume "\<exists>j<length ?ns. z = ?ns ! j \<and> c' = ?k + j"
      then obtain j where j: "j < length ?ns" "z = ?ns ! j" "c' = ?k + j" by blast
      from new [of j] j have "insp_getParentOf insp z = Some n" by simp
      moreover from old [OF idx] have "uu_rowMetaDataByNode ?q n = Some rm" .
      moreover from rm have "childRowMetas (objects ?q ! rm) = Some [?k ..< ?k + length ?ns]"
        by (rule expanded_rm_children)
      moreover from j have "c' \<in> set [?k ..< ?k + length ?ns]" by simp
      ultimately show ?thesis by blast
    next
      assume "uu_rowMetaDataByNode p z = Some c' \<and> z \<notin> set ?ns"
      then have o: "uu_rowMetaDataByNode p z = Some c'" ..
      from consistent_parent [OF c o zr] obtain x r cs where
        x: "insp_getParentOf insp z = Some x" "uu_rowMetaDataByNode p x = Some r"
           "childRowMetas (objects p ! r) = Some cs" "c' \<in> set cs" by blast
      from x(3) col have "r \<noteq> rm" by auto
      moreover from c x(2) have "r < ?k" by (rule consistent_refs)
      ultimately have "childRowMetas (objects ?q ! r) = Some cs"
        using x(3) by (simp add: expanded_old_children)
      with x(1,4) old [OF x(2)] show ?thesis by blast
    qed
  }
qed

text \<open>\<^verbatim>\<open>_expandNode\<close> keeps the data model, whatever it returns, and so does the
  loop of \<^verbatim>\<open>revealNode\<close> over the ancestors.\<close>

lemma u_expandNode_consistent:
  assumes t: "tree insp R" and c: "consistent insp R p"
  shows "consistent insp R (snd (u_expandNode insp n p))"
proof (cases "uu_rowMetaDataByNode p n")
  case None
  then have "snd (u_expandNode insp n p) = p"
    by (simp add: u_expandNode_def u_getNodeMetaData_def)
  with c show ?thesis by simp
next
  case (Some rm)
  show ?thesis
  proof (cases "childRowMetas (objects p ! rm) = None \<and> canHaveChildren (objects p ! rm) = Some True")
    case True
    from c Some have "rm < length (objects p)" by (rule consistent_refs)
    with Some True have "u_expandNode insp n p = (Inr (), expanded insp n rm p)"
      by (simp add: u_expandNode_collapsed)
    moreover from t c Some True have "consistent insp R (expanded insp n rm p)"
      by (simp add: consistent_expanded)
    ultimately show ?thesis by simp
  next
    case False
    with Some have "snd (u_expandNode insp n p) = p"
      by (auto simp: u_expandNode_def u_getNodeMetaData_def)
    with c show ?thesis by simp
  qed
qed

lemma revealNode_loop_consistent:
  assumes t: "tree insp R"
  shows "consistent insp R p \<Longrightarrow> consistent insp R (snd (revealNode_loop insp as p))"
proof (induction as arbitrary: p)
  case Nil
  then show ?case by simp
next
  case (Cons a as)
  obtain e p1 where u: "u_expandNode insp a p = (e, p1)" by force
  from u_expandNode_consistent [OF t Cons.prems, of a] u have c1: "consistent insp R p1" by simp
  show ?case
  proof (cases e)
    case (Inl x)
    with u c1 show ?thesis by simp
  next
    case (Inr y)
    with u Cons.IH [OF c1] show ?thesis by simp
  qed
qed

subsection \<open>Collapsing keeps the data model\<close>

lemma keeps_refl: "keeps p p"
  unfolding keeps_def by simp

lemma keeps_trans: "keeps p q \<Longrightarrow> keeps q r \<Longrightarrow> keeps p r"
  unfolding keeps_def by auto

lemma keeps_length: "keeps p q \<Longrightarrow> length (objects q) = length (objects p)"
  unfolding keeps_def by simp

lemma keeps_children:
  "keeps p q \<Longrightarrow> a < length (objects p) \<Longrightarrow>
   childRowMetas (objects q ! a) = childRowMetas (objects p ! a)"
  unfolding keeps_def by simp

lemma keeps_node:
  "keeps p q \<Longrightarrow> a < length (objects p) \<Longrightarrow> node (objects q ! a) = node (objects p ! a)"
  unfolding keeps_def by simp

lemma keeps_index: "keeps p q \<Longrightarrow> uu_rowMetaDataByNode q = uu_rowMetaDataByNode p"
  unfolding keeps_def by simp

lemma keeps_rows: "keeps p q \<Longrightarrow> r \<in> set (uu_rowMetaDatas q) \<Longrightarrow> r \<in> set (uu_rowMetaDatas p)"
  unfolding keeps_def by auto

lemma keeps_forward:
  assumes k: "keeps p q" and f: "forward p"
  shows "forward q"
  unfolding forward_def
proof (intro allI impI ballI)
  fix r cs c
  assume a: "r < length (objects q) \<and> childRowMetas (objects q ! r) = Some cs" and c: "c \<in> set cs"
  from a k have r: "r < length (objects p)" by (simp add: keeps_length)
  with a k have "childRowMetas (objects p ! r) = Some cs" by (simp add: keeps_children)
  with f r c have "r < c \<and> c < length (objects p)" unfolding forward_def by blast
  with k show "r < c \<and> c < length (objects q)" by (simp add: keeps_length)
qed

lemma keeps_childRel: "keeps p q \<Longrightarrow> childRel q = childRel p"
  unfolding childRel_def keeps_def by auto

lemma keeps_desc: "keeps p q \<Longrightarrow> desc q r = desc p r"
  unfolding desc_def by (simp add: keeps_childRel)

lemma keeps_fireChangeSize: "keeps p (fireChangeSize p)"
  unfolding keeps_def fireChangeSize_def by simp

lemma node_unbind:
  "node (xs[r := (xs ! r)\<lparr>childrenChangeBinding := None\<rparr>] ! a) = node (xs ! a)"
proof (cases "r < length xs")
  case True
  then show ?thesis by (cases "a = r") simp_all
next
  case False
  then have "length xs \<le> r" by simp
  then show ?thesis by (simp add: list_update_beyond)
qed

lemma keeps_dispose: "keeps p (uu_disposeRowMetaData a p)"
proof (cases a)
  case (RowObject r)
  show ?thesis
  proof (cases "childrenChangeBinding (objects p ! r)")
    case None
    then show ?thesis by (simp add: RowObject keeps_refl)
  next
    case (Some b)
    then show ?thesis
      unfolding keeps_def by (simp add: RowObject setRow_def childRowMetas_unbind node_unbind)
  qed
next
  case (PropertyName k)
  then show ?thesis by (simp add: keeps_refl)
qed

lemma consistent_keeps:
  assumes k: "keeps p q" and c: "consistent insp R p"
  shows "consistent insp R q"
proof (rule consistentI)
  note ix = keeps_index [OF k]
  {
    fix x r assume "uu_rowMetaDataByNode q x = Some r"
    with ix have x: "uu_rowMetaDataByNode p x = Some r" by simp
    from c x have "r < length (objects p)" "node (objects p ! r) = Some x"
      by (rule consistent_refs, rule consistent_node)
    with k show "r < length (objects q) \<and> node (objects q ! r) = Some x"
      by (simp add: keeps_length keeps_node)
  next
    fix r assume "r \<in> set (uu_rowMetaDatas q)"
    with k have "r \<in> set (uu_rowMetaDatas p)" by (rule keeps_rows)
    with c have "r < length (objects p)" by (rule consistent_rows)
    with k show "r < length (objects q)" by (simp add: keeps_length)
  next
    from k consistent_forward [OF c] show "forward q" by (rule keeps_forward)
  next
    fix x r cs c'
    assume "uu_rowMetaDataByNode q x = Some r"
      and cs: "childRowMetas (objects q ! r) = Some cs" and c': "c' \<in> set cs"
    with ix have x: "uu_rowMetaDataByNode p x = Some r" by simp
    from c x have r: "r < length (objects p)" by (rule consistent_refs)
    with k cs have cs': "childRowMetas (objects p ! r) = Some cs" by (simp add: keeps_children)
    from consistent_child [OF c x cs' c'] obtain z where
      z: "node (objects p ! c') = Some z" "uu_rowMetaDataByNode p z = Some c'"
         "insp_getParentOf insp z = Some x" by blast
    from c z(2) have "c' < length (objects p)" by (rule consistent_refs)
    with k z(1) have "node (objects q ! c') = Some z" by (simp add: keeps_node)
    with z ix show "\<exists>z. node (objects q ! c') = Some z \<and> uu_rowMetaDataByNode q z = Some c' \<and>
           insp_getParentOf insp z = Some x" by simp
  next
    fix z c' assume "uu_rowMetaDataByNode q z = Some c'" and zr: "z \<noteq> R"
    with ix have z: "uu_rowMetaDataByNode p z = Some c'" by simp
    from consistent_parent [OF c z zr] obtain x r cs where
      x: "insp_getParentOf insp z = Some x" "uu_rowMetaDataByNode p x = Some r"
         "childRowMetas (objects p ! r) = Some cs" "c' \<in> set cs" by blast
    from c x(2) have "r < length (objects p)" by (rule consistent_refs)
    with k x(3) have "childRowMetas (objects q ! r) = Some cs" by (simp add: keeps_children)
    with x ix show "\<exists>x r cs. insp_getParentOf insp z = Some x \<and> uu_rowMetaDataByNode q x = Some r \<and>
           childRowMetas (objects q ! r) = Some cs \<and> c' \<in> set cs" by auto
  }
qed

text \<open>
  The recursion of \<^verbatim>\<open>_removeChildRows\<close> returns, it collects exactly the rows
  below the row it starts from, and it changes nothing but bindings.
\<close>

lemma desc_unfold:
  assumes "r < length (objects p)"
  shows "desc p r = (case childRowMetas (objects p ! r) of None \<Rightarrow> {}
                     | Some cs \<Rightarrow> (\<Union>c \<in> set cs. insert c (desc p c)))"
proof -
  have 1: "\<And>c. (r, c) \<in> childRel p \<longleftrightarrow>
      (\<exists>cs. childRowMetas (objects p ! r) = Some cs \<and> c \<in> set cs)"
    using assms by (simp add: childRel_def)
  have 2: "\<And>d. (r, d) \<in> (childRel p)\<^sup>+ \<longleftrightarrow>
      (\<exists>c. (r, c) \<in> childRel p \<and> (c = d \<or> (c, d) \<in> (childRel p)\<^sup>+))"
    by (metis converse_tranclE trancl.r_into_trancl trancl_into_trancl2)
  show ?thesis
  proof (cases "childRowMetas (objects p ! r)")
    case None
    with 1 have "\<And>c. (r, c) \<notin> childRel p" by simp
    with 2 have "desc p r = {}" unfolding desc_def by blast
    with None show ?thesis by simp
  next
    case (Some cs)
    with 1 have "\<And>c. (r, c) \<in> childRel p \<longleftrightarrow> c \<in> set cs" by simp
    with 2 have "desc p r = (\<Union>c \<in> set cs. insert c (desc p c))"
      unfolding desc_def by blast
    with Some show ?thesis by simp
  qed
qed

lemma each_collects:
  assumes rec: "\<And>c q tr. c \<in> set cs \<Longrightarrow> keeps p q \<Longrightarrow>
      \<exists>q' tr'. f c (q, tr) = Some (q', tr') \<and> keeps q q' \<and> set tr' = set tr \<union> desc p c"
    and "keeps p q"
  shows "\<exists>q' tr'. removeChildRows_each f cs (q, tr) = Some (q', tr') \<and> keeps q q' \<and>
      set tr' = set tr \<union> (\<Union>c \<in> set cs. insert c (desc p c))"
  using assms
proof (induction cs arbitrary: q tr)
  case Nil
  then show ?case by (simp add: keeps_refl)
next
  case (Cons c cs)
  from Cons.prems(1) [of c q "tr @ [c]"] Cons.prems(2)
  obtain q1 tr1 where 1: "f c (q, tr @ [c]) = Some (q1, tr1)" "keeps q q1"
    "set tr1 = set (tr @ [c]) \<union> desc p c" by auto
  let ?q2 = "uu_disposeRowMetaData (RowObject c) q1"
  have 2: "keeps q ?q2"
    using 1(2) keeps_dispose [of q1 "RowObject c"] by (rule keeps_trans)
  with Cons.prems(2) have 3: "keeps p ?q2" by (rule keeps_trans)
  have "\<exists>q' tr'. removeChildRows_each f cs (?q2, tr1) = Some (q', tr') \<and> keeps ?q2 q' \<and>
      set tr' = set tr1 \<union> (\<Union>c \<in> set cs. insert c (desc p c))"
    by (rule Cons.IH [OF _ 3]) (rule Cons.prems(1), simp_all)
  then obtain q' tr' where 4: "removeChildRows_each f cs (?q2, tr1) = Some (q', tr')"
    "keeps ?q2 q'" "set tr' = set tr1 \<union> (\<Union>c \<in> set cs. insert c (desc p c))" by blast
  from 2 4(2) have "keeps q q'" by (rule keeps_trans)
  moreover from 1(3) 4(3) have "set tr' = set tr \<union> (\<Union>c \<in> set (c # cs). insert c (desc p c))"
    by auto
  ultimately show ?case using 1(1) 4(1) by simp
qed

lemma rec_collects:
  assumes "forward p" and "r < length (objects p)" and "length (objects p) - r \<le> k"
  shows "\<exists>q tr'. removeChildRows_rec (Suc k) r (p, tr) = Some (q, tr') \<and> keeps p q \<and>
      set tr' = set tr \<union> desc p r"
  using assms
proof (induction k arbitrary: r p tr)
  case 0
  then show ?case by simp
next
  case (Suc k)
  show ?case
  proof (cases "childRowMetas (objects p ! r)")
    case None
    with Suc.prems(2) have "desc p r = {}" by (simp add: desc_unfold)
    with None show ?thesis by (simp add: keeps_refl)
  next
    case (Some cs)
    have sub: "\<And>c q tr. c \<in> set cs \<Longrightarrow> keeps p q \<Longrightarrow>
        \<exists>q' tr'. removeChildRows_rec (Suc k) c (q, tr) = Some (q', tr') \<and> keeps q q' \<and>
          set tr' = set tr \<union> desc p c"
    proof -
      fix c q tr
      assume c: "c \<in> set cs" and s: "keeps p q"
      from Suc.prems(1) have "r < length (objects p) \<and> childRowMetas (objects p ! r) = Some cs \<longrightarrow>
          (\<forall>c \<in> set cs. r < c \<and> c < length (objects p))"
        unfolding forward_def by (elim allE)
      with Suc.prems(2) Some c have rc: "r < c" "c < length (objects p)"
        by blast+
      from s Suc.prems(1) have f: "forward q" by (rule keeps_forward)
      from s have l: "length (objects q) = length (objects p)" by (rule keeps_length)
      from rc Suc.prems(3) l have "c < length (objects q)" "length (objects q) - c \<le> k" by auto
      from Suc.IH [OF f this, of tr] keeps_desc [OF s, of c]
      show "\<exists>q' tr'. removeChildRows_rec (Suc k) c (q, tr) = Some (q', tr') \<and> keeps q q' \<and>
          set tr' = set tr \<union> desc p c" by simp
    qed
    have step: "removeChildRows_rec (Suc (Suc k)) r (p, tr) =
        removeChildRows_each (removeChildRows_rec (Suc k)) cs (p, tr)"
      using Some by simp
    from Suc.prems(2) Some have d: "desc p r = (\<Union>c \<in> set cs. insert c (desc p c))"
      by (simp add: desc_unfold)
    from each_collects [of cs p "removeChildRows_rec (Suc k)" p tr, OF sub keeps_refl]
    show ?thesis unfolding step d .
  qed
qed

lemma desc_child:
  "r < length (objects p) \<Longrightarrow> childRowMetas (objects p ! r) = Some cs \<Longrightarrow> c \<in> set cs \<Longrightarrow>
   c \<in> desc p r"
  unfolding desc_def childRel_def by auto

lemma desc_closed:
  assumes "d \<in> desc p r" and "d < length (objects p)"
    and "childRowMetas (objects p ! d) = Some cs" and "c \<in> set cs"
  shows "c \<in> desc p r"
proof -
  from assms(2-4) have "(d, c) \<in> childRel p" unfolding childRel_def by auto
  with assms(1) show ?thesis unfolding desc_def by (auto intro: trancl_into_trancl)
qed

lemma desc_parent:
  assumes "d \<in> desc p r"
  shows "\<exists>r' cs. (r' = r \<or> r' \<in> desc p r) \<and> r' < length (objects p) \<and>
      childRowMetas (objects p ! r') = Some cs \<and> d \<in> set cs"
proof -
  from assms have "(r, d) \<in> (childRel p)\<^sup>+" by (simp add: desc_def)
  then have "(r, d) \<in> childRel p \<or> (\<exists>y. (r, y) \<in> (childRel p)\<^sup>+ \<and> (y, d) \<in> childRel p)"
    by (auto elim: tranclE)
  then show ?thesis unfolding desc_def childRel_def by auto
qed

text \<open>In the data model, every row below a row of the dictionary is in the
  dictionary under its own node.\<close>

lemma desc_indexed:
  assumes c: "consistent insp R p" and x: "uu_rowMetaDataByNode p x = Some r"
    and d: "d \<in> desc p r"
  shows "\<exists>z. node (objects p ! d) = Some z \<and> uu_rowMetaDataByNode p z = Some d"
proof -
  from d have "(r, d) \<in> (childRel p)\<^sup>+" by (simp add: desc_def)
  then show ?thesis
  proof (induction rule: trancl_induct)
    case (base y)
    then obtain cs where "childRowMetas (objects p ! r) = Some cs" "y \<in> set cs"
      unfolding childRel_def by auto
    from consistent_child [OF c x this] show ?case by blast
  next
    case (step y z)
    from step.IH obtain v where v: "uu_rowMetaDataByNode p v = Some y" by blast
    from step.hyps(2) obtain cs where "childRowMetas (objects p ! y) = Some cs" "z \<in> set cs"
      unfolding childRel_def by auto
    from consistent_child [OF c v this] show ?case by blast
  qed
qed

text \<open>
  Cutting the rows below a row \<open>rm\<close> of the dictionary keeps the data model:
  \<open>rm\<close> loses its \<^verbatim>\<open>childRowMetas\<close>, and the nodes of the rows below it leave
  the dictionary.
\<close>

lemma consistent_pruned:
  assumes t: "tree insp R" and c: "consistent insp R p"
    and idx: "uu_rowMetaDataByNode p n = Some rm"
    and len: "length (objects q) = length (objects p)"
    and nd: "\<And>a. a < length (objects p) \<Longrightarrow> node (objects q ! a) = node (objects p ! a)"
    and ch: "\<And>a. a < length (objects p) \<Longrightarrow>
        childRowMetas (objects q ! a) = (if a = rm then None else childRowMetas (objects p ! a))"
    and ix: "\<And>z. uu_rowMetaDataByNode q z =
        (if \<exists>d \<in> desc p rm. node (objects p ! d) = Some z then None else uu_rowMetaDataByNode p z)"
    and rows: "set (uu_rowMetaDatas q) \<subseteq> set (uu_rowMetaDatas p)"
  shows "consistent insp R q"
proof (rule consistentI)
  have kept: "\<And>z r. uu_rowMetaDataByNode q z = Some r \<Longrightarrow>
      uu_rowMetaDataByNode p z = Some r \<and> r \<notin> desc p rm \<and> r < length (objects p)"
  proof -
    fix z r assume q: "uu_rowMetaDataByNode q z = Some r"
    with ix [of z] have p: "uu_rowMetaDataByNode p z = Some r"
      and no: "\<not> (\<exists>d \<in> desc p rm. node (objects p ! d) = Some z)"
      by (simp_all split: if_splits)
    from c p have "node (objects p ! r) = Some z" "r < length (objects p)"
      by (rule consistent_node, rule consistent_refs)
    with no p show "uu_rowMetaDataByNode p z = Some r \<and> r \<notin> desc p rm \<and> r < length (objects p)"
      by blast
  qed
  have stays: "\<And>z r. uu_rowMetaDataByNode p z = Some r \<Longrightarrow> r \<notin> desc p rm \<Longrightarrow>
      uu_rowMetaDataByNode q z = Some r"
  proof -
    fix z r assume p: "uu_rowMetaDataByNode p z = Some r" and r: "r \<notin> desc p rm"
    have "\<not> (\<exists>d \<in> desc p rm. node (objects p ! d) = Some z)"
    proof
      assume "\<exists>d \<in> desc p rm. node (objects p ! d) = Some z"
      then obtain d where d: "d \<in> desc p rm" "node (objects p ! d) = Some z" by blast
      from desc_indexed [OF c idx d(1)] d(2) have "uu_rowMetaDataByNode p z = Some d" by auto
      with p d(1) r show False by simp
    qed
    with ix [of z] p show "uu_rowMetaDataByNode q z = Some r" by simp
  qed
  {
    fix x r assume "uu_rowMetaDataByNode q x = Some r"
    from kept [OF this] have p: "uu_rowMetaDataByNode p x = Some r" and r: "r < length (objects p)"
      by simp_all
    from c p have "node (objects p ! r) = Some x" by (rule consistent_node)
    with r show "r < length (objects q) \<and> node (objects q ! r) = Some x" by (simp add: len nd)
  next
    fix r assume "r \<in> set (uu_rowMetaDatas q)"
    with rows have "r \<in> set (uu_rowMetaDatas p)" by blast
    with c have "r < length (objects p)" by (rule consistent_rows)
    then show "r < length (objects q)" by (simp add: len)
  next
    show "forward q"
      unfolding forward_def
    proof (intro allI impI ballI)
      fix r cs c'
      assume a: "r < length (objects q) \<and> childRowMetas (objects q ! r) = Some cs"
        and c': "c' \<in> set cs"
      from a len have r: "r < length (objects p)" by simp
      with a ch [of r] have "childRowMetas (objects p ! r) = Some cs" by (simp split: if_splits)
      with consistent_forward [OF c] r c' have "r < c' \<and> c' < length (objects p)"
        unfolding forward_def by blast
      then show "r < c' \<and> c' < length (objects q)" by (simp add: len)
    qed
  next
    fix x r cs c'
    assume q: "uu_rowMetaDataByNode q x = Some r"
      and cs: "childRowMetas (objects q ! r) = Some cs" and c': "c' \<in> set cs"
    from kept [OF q] have p: "uu_rowMetaDataByNode p x = Some r" and rd: "r \<notin> desc p rm"
      and r: "r < length (objects p)" by simp_all
    from cs ch [OF r] have rrm: "r \<noteq> rm" and cs': "childRowMetas (objects p ! r) = Some cs"
      by (simp_all split: if_splits)
    from consistent_child [OF c p cs' c'] obtain z where
      z: "node (objects p ! c') = Some z" "uu_rowMetaDataByNode p z = Some c'"
         "insp_getParentOf insp z = Some x" by blast
    from c z(2) have lc: "c' < length (objects p)" by (rule consistent_refs)
    have "c' \<notin> desc p rm"
    proof
      assume "c' \<in> desc p rm"
      from desc_parent [OF this] obtain r' cs2 where
        r': "r' = rm \<or> r' \<in> desc p rm" "childRowMetas (objects p ! r') = Some cs2" "c' \<in> set cs2"
        by blast
      from r'(1) have "\<exists>x'. uu_rowMetaDataByNode p x' = Some r'"
      proof
        assume "r' = rm" with idx show ?thesis by blast
      next
        assume "r' \<in> desc p rm"
        from desc_indexed [OF c idx this] show ?thesis by blast
      qed
      then obtain x' where x': "uu_rowMetaDataByNode p x' = Some r'" by blast
      from consistent_child [OF c x' r'(2,3)] z(1,3) have "x' = x" by auto
      with x' p have "r' = r" by simp
      with r'(1) rrm rd show False by blast
    qed
    with z(2) have "uu_rowMetaDataByNode q z = Some c'" by (rule stays)
    with z(1,3) lc show "\<exists>z. node (objects q ! c') = Some z \<and> uu_rowMetaDataByNode q z = Some c' \<and>
           insp_getParentOf insp z = Some x" by (simp add: nd)
  next
    fix z c' assume q: "uu_rowMetaDataByNode q z = Some c'" and zr: "z \<noteq> R"
    from kept [OF q] have p: "uu_rowMetaDataByNode p z = Some c'" and cd: "c' \<notin> desc p rm"
      by simp_all
    from consistent_parent [OF c p zr] obtain x r cs where
      x: "insp_getParentOf insp z = Some x" "uu_rowMetaDataByNode p x = Some r"
         "childRowMetas (objects p ! r) = Some cs" "c' \<in> set cs" by blast
    from c x(2) have r: "r < length (objects p)" by (rule consistent_refs)
    from desc_child [OF r x(3,4)] cd have rrm: "r \<noteq> rm" by blast
    from desc_closed [OF _ r x(3,4)] cd have "r \<notin> desc p rm" by blast
    with x(2) have "uu_rowMetaDataByNode q x = Some r" by (rule stays)
    moreover from ch [OF r] rrm x(3) have "childRowMetas (objects q ! r) = Some cs" by simp
    ultimately show "\<exists>x r cs. insp_getParentOf insp z = Some x \<and> uu_rowMetaDataByNode q x = Some r \<and>
           childRowMetas (objects q ! r) = Some cs \<and> c' \<in> set cs"
      using x(1,4) by blast
  }
qed

lemma set_fold_remove1: "set (fold remove1 rs xs) \<subseteq> set xs"
proof (induction rs arbitrary: xs)
  case Nil
  then show ?case by simp
next
  case (Cons r rs)
  have "set (fold remove1 rs (remove1 r xs)) \<subseteq> set (remove1 r xs)" by (rule Cons.IH)
  also have "\<dots> \<subseteq> set xs" by (rule set_remove1_subset)
  finally show ?case by simp
qed

lemma u_removeChildRows_eq:
  "removeChildRows_rec (Suc (length (objects p))) rm (p, []) = Some (p1, T) \<Longrightarrow>
   u_removeChildRows rm p =
     Some (removeChildRows_drop T (setRow rm (\<lambda>m. m\<lparr>childRowMetas := None\<rparr>) p1))"
  by (simp add: u_removeChildRows_def del: removeChildRows_rec.simps)

text \<open>\<^verbatim>\<open>_removeChildRows\<close> returns without an error and keeps the data model; so
  does \<^verbatim>\<open>_collapseNode\<close>, whatever it returns.\<close>

lemma u_removeChildRows_pruned:
  assumes t: "tree insp R" and c: "consistent insp R p"
    and idx: "uu_rowMetaDataByNode p n = Some rm"
    and k1: "keeps p p1"
  shows "\<exists>q. u_removeChildRows rm p1 = Some (Inr (), q) \<and> consistent insp R q"
proof -
  from c idx have rm: "rm < length (objects p)" by (rule consistent_refs)
  from k1 have f1: "forward p1" using consistent_forward [OF c] by (rule keeps_forward)
  from k1 rm have rm1: "rm < length (objects p1)" by (simp add: keeps_length)
  from rec_collects [OF f1 rm1, of "length (objects p1)" "[]"]
  obtain q1 T where
    rec: "removeChildRows_rec (Suc (length (objects p1))) rm (p1, []) = Some (q1, T)"
    and k2: "keeps p1 q1" and T1: "set T = desc p1 rm" by auto
  from k1 k2 have k: "keeps p q1" by (rule keeps_trans)
  from T1 keeps_desc [OF k1] have T: "set T = desc p rm" by simp
  define p2 where "p2 = setRow rm (\<lambda>m. m\<lparr>childRowMetas := None\<rparr>) q1"
  have len2: "length (objects p2) = length (objects p)"
    using k by (simp add: p2_def setRow_def keeps_length)
  have nd2: "\<And>a. a < length (objects p) \<Longrightarrow> node (objects p2 ! a) = node (objects p ! a)"
  proof -
    fix a assume a: "a < length (objects p)"
    with k have "node (objects q1 ! a) = node (objects p ! a)" by (rule keeps_node)
    with a k show "node (objects p2 ! a) = node (objects p ! a)"
      by (cases "a = rm") (simp_all add: p2_def setRow_def keeps_length)
  qed
  have ch2: "\<And>a. a < length (objects p) \<Longrightarrow>
      childRowMetas (objects p2 ! a) = (if a = rm then None else childRowMetas (objects p ! a))"
  proof -
    fix a assume a: "a < length (objects p)"
    with k have "childRowMetas (objects q1 ! a) = childRowMetas (objects p ! a)"
      by (rule keeps_children)
    with a k show "childRowMetas (objects p2 ! a) =
        (if a = rm then None else childRowMetas (objects p ! a))"
      by (cases "a = rm") (simp_all add: p2_def setRow_def keeps_length)
  qed
  have ix2: "uu_rowMetaDataByNode p2 = uu_rowMetaDataByNode p"
    using keeps_index [OF k] by (simp add: p2_def setRow_def)
  have rows2: "uu_rowMetaDatas p2 = uu_rowMetaDatas q1"
    by (simp add: p2_def setRow_def)
  have named: "\<And>d. d \<in> set T \<Longrightarrow>
      d < length (objects p) \<and> node (objects p2 ! d) = node (objects p ! d) \<and>
      node (objects p ! d) \<noteq> None"
  proof -
    fix d assume "d \<in> set T"
    with T have "d \<in> desc p rm" by simp
    from desc_indexed [OF c idx this] obtain z where
      z: "node (objects p ! d) = Some z" "uu_rowMetaDataByNode p z = Some d" by blast
    from c z(2) have "d < length (objects p)" by (rule consistent_refs)
    with z(1) nd2 [of d] show "d < length (objects p) \<and>
        node (objects p2 ! d) = node (objects p ! d) \<and> node (objects p ! d) \<noteq> None" by simp
  qed
  then have "\<forall>d \<in> set T. node (objects p2 ! d) \<noteq> None" by simp
  note drop = removeChildRows_drop_eq [OF this]
  define p3 where "p3 = p2\<lparr>uu_rowMetaDataByNode :=
                fold (\<lambda>c m. m(the (node (objects p2 ! c)) := None)) T (uu_rowMetaDataByNode p2),
              uu_rowMetaDatas := fold remove1 T (uu_rowMetaDatas p2)\<rparr>"
  from u_removeChildRows_eq [OF rec]
  have "u_removeChildRows rm p1 = Some (removeChildRows_drop T p2)" by (simp only: p2_def)
  with drop have ur: "u_removeChildRows rm p1 = Some (Inr (), p3)" by (simp only: p3_def)
  have ix3: "\<And>z. uu_rowMetaDataByNode p3 z =
      (if \<exists>d \<in> desc p rm. node (objects p ! d) = Some z then None else uu_rowMetaDataByNode p z)"
  proof -
    fix z
    have "z \<in> (\<lambda>c. the (node (objects p2 ! c))) ` set T \<longleftrightarrow>
        (\<exists>d \<in> desc p rm. node (objects p ! d) = Some z)"
    proof
      assume "z \<in> (\<lambda>c. the (node (objects p2 ! c))) ` set T"
      then obtain d where d: "d \<in> set T" "z = the (node (objects p2 ! d))" by blast
      from named [OF d(1)] d(2) have "node (objects p ! d) = Some z" by auto
      with d(1) T show "\<exists>d \<in> desc p rm. node (objects p ! d) = Some z" by blast
    next
      assume "\<exists>d \<in> desc p rm. node (objects p ! d) = Some z"
      then obtain d where d: "d \<in> desc p rm" "node (objects p ! d) = Some z" by blast
      with T have dT: "d \<in> set T" by simp
      from named [OF this] d(2) have "z = the (node (objects p2 ! d))" by simp
      with dT show "z \<in> (\<lambda>c. the (node (objects p2 ! c))) ` set T" by blast
    qed
    then show "uu_rowMetaDataByNode p3 z =
      (if \<exists>d \<in> desc p rm. node (objects p ! d) = Some z then None else uu_rowMetaDataByNode p z)"
      unfolding p3_def ix2 by (simp add: fold_delete_apply)
  qed
  have rows3: "set (uu_rowMetaDatas p3) \<subseteq> set (uu_rowMetaDatas p)"
  proof
    fix r assume "r \<in> set (uu_rowMetaDatas p3)"
    then have "r \<in> set (fold remove1 T (uu_rowMetaDatas q1))" by (simp add: p3_def rows2)
    then have "r \<in> set (uu_rowMetaDatas q1)" by (rule subsetD [OF set_fold_remove1])
    with k show "r \<in> set (uu_rowMetaDatas p)" by (rule keeps_rows)
  qed
  have ob3: "objects p3 = objects p2" by (simp add: p3_def)
  have "consistent insp R p3"
  proof (rule consistent_pruned [OF t c idx])
    show "length (objects p3) = length (objects p)" using len2 by (simp add: ob3)
  next
    fix a assume "a < length (objects p)"
    from nd2 [OF this] show "node (objects p3 ! a) = node (objects p ! a)" by (simp add: ob3)
  next
    fix a assume "a < length (objects p)"
    from ch2 [OF this] show "childRowMetas (objects p3 ! a) =
        (if a = rm then None else childRowMetas (objects p ! a))" by (simp add: ob3)
  next
    fix z show "uu_rowMetaDataByNode p3 z =
      (if \<exists>d \<in> desc p rm. node (objects p ! d) = Some z then None else uu_rowMetaDataByNode p z)"
      by (rule ix3)
  next
    show "set (uu_rowMetaDatas p3) \<subseteq> set (uu_rowMetaDatas p)" by (rule rows3)
  qed
  with ur show ?thesis by blast
qed

lemma u_collapseNode_unfold:
  assumes "uu_rowMetaDataByNode p n = Some rm" and "childRowMetas (objects p ! rm) = Some cs"
  shows "u_collapseNode n p =
     (case u_removeChildRows rm (uu_disposeRowMetaData (RowObject rm) p) of
        None \<Rightarrow> None
      | Some (Inl e, p2) \<Rightarrow> Some (Inl e, p2)
      | Some (Inr u, p2) \<Rightarrow> Some (Inr (), fireChangeSize p2))"
  using assms by (simp add: u_collapseNode_def)

lemma u_collapseNode_consistent:
  assumes t: "tree insp R" and c: "consistent insp R p"
    and res: "u_collapseNode n p = Some (e, q)"
  shows "consistent insp R q"
proof (cases "uu_rowMetaDataByNode p n")
  case None
  with res have "q = p" by (simp add: u_collapseNode_def)
  with c show ?thesis by simp
next
  case (Some rm)
  show ?thesis
  proof (cases "childRowMetas (objects p ! rm)")
    case None
    with Some res have "q = p" by (simp add: u_collapseNode_def)
    with c show ?thesis by simp
  next
    case (Some cs)
    note idx = \<open>uu_rowMetaDataByNode p n = Some rm\<close>
    from u_removeChildRows_pruned [OF t c idx keeps_dispose [of p "RowObject rm"]]
    obtain q2 where ur: "u_removeChildRows rm (uu_disposeRowMetaData (RowObject rm) p) =
        Some (Inr (), q2)" and c2: "consistent insp R q2" by blast
    from res have "q = fireChangeSize q2"
      unfolding u_collapseNode_unfold [OF idx Some] ur by simp
    with keeps_fireChangeSize [of q2] c2 show ?thesis by (simp add: consistent_keeps)
  qed
qed

subsection \<open>Applying a root sets the data model up\<close>

text \<open>The loop of \<^verbatim>\<open>_insertChildRows\<close>, when it returns without an error, has
  created a row for every child and no child was null.\<close>

lemma insertChildRows_loop_eq:
  assumes "insertChildRows_loop insp rm cs p = (Inr (), q)"
    and "rm < length (objects p)" and "childRowMetas (objects p ! rm) = Some rs"
  shows "objects q =
      (objects p @ newRows insp (- 1) (nonNull cs))
        [rm := (objects p ! rm)\<lparr>childRowMetas :=
           Some (rs @ [length (objects p) ..< length (objects p) + length (nonNull cs)])\<rparr>] \<and>
    uu_rowMetaDataByNode q = (uu_rowMetaDataByNode p)
      (nonNull cs [\<mapsto>] [length (objects p) ..< length (objects p) + length (nonNull cs)]) \<and>
    uu_rowMetaDatas q =
      uu_rowMetaDatas p @ [length (objects p) ..< length (objects p) + length (nonNull cs)]"
  using assms
proof (induction cs arbitrary: p rs q)
  case Nil
  then have "q = p" by simp
  moreover from Nil.prems(3)
  have "(objects p ! rm)\<lparr>childRowMetas := Some rs\<rparr> = objects p ! rm"
    by (cases "objects p ! rm") simp
  ultimately show ?case by (simp add: newRows_def)
next
  case (Cons x cs)
  show ?case
  proof (cases x)
    case None
    with Cons.prems(1) show ?thesis
      by (simp add: uu_createRowMetaData_def setRow_def Let_def)
  next
    case (Some c)
    let ?k = "length (objects p)"
    let ?row = "mkRow c 0 (insp_canHaveChildren insp (Some c)) None None"
    let ?p' = "p\<lparr>uu_rowMetaDatas := uu_rowMetaDatas p @ [?k],
                uu_rowMetaDataByNode := (uu_rowMetaDataByNode p)(c \<mapsto> ?k),
                objects := (objects p)[rm := (objects p ! rm)\<lparr>childRowMetas := Some (rs @ [?k])\<rparr>] @ [?row]\<rparr>"
    have step: "insertChildRows_loop insp rm (Some c # cs) p = insertChildRows_loop insp rm cs ?p'"
      using Cons.prems(2,3)
      by (simp add: uu_createRowMetaData_def setRow_def mkRow_def Let_def nth_append
          list_update_append)
    with Cons.prems(1) Some have res: "insertChildRows_loop insp rm cs ?p' = (Inr (), q)" by simp
    have len: "length (objects ?p') = Suc ?k" by simp
    from Cons.prems(2) have rm': "rm < length (objects ?p')" by simp
    from Cons.prems(2) have ch': "childRowMetas (objects ?p' ! rm) = Some (rs @ [?k])"
      by (simp add: nth_append)
    have upt: "[?k ..< ?k + length (nonNull (Some c # cs))] =
        ?k # [Suc ?k ..< Suc ?k + length (nonNull cs)]"
      by (subst upt_conv_Cons) (simp_all del: upt_Suc)
    have obj: "objects ?p' = (objects p)[rm := (objects p ! rm)\<lparr>childRowMetas := Some (rs @ [?k])\<rparr>] @ [?row]"
      and idx: "uu_rowMetaDataByNode ?p' = (uu_rowMetaDataByNode p)(c \<mapsto> ?k)"
      and rows: "uu_rowMetaDatas ?p' = uu_rowMetaDatas p @ [?k]"
      by simp_all
    note ih = Cons.IH [OF res rm' ch', unfolded len]
    from ih have "objects q = (objects ?p' @ newRows insp (- 1) (nonNull cs))
        [rm := (objects ?p' ! rm)\<lparr>childRowMetas :=
           Some ((rs @ [?k]) @ [Suc ?k ..< Suc ?k + length (nonNull cs)])\<rparr>]" by blast
    then have o: "objects q = (objects p @ newRows insp (- 1) (nonNull (Some c # cs)))
        [rm := (objects p ! rm)\<lparr>childRowMetas :=
           Some (rs @ [?k ..< ?k + length (nonNull (Some c # cs))])\<rparr>]"
      unfolding upt obj using Cons.prems(2)
      by (simp add: newRows_def mkRow_def list_update_append nth_append del: upt_Suc)
    from ih have "uu_rowMetaDataByNode q = (uu_rowMetaDataByNode ?p')
        (nonNull cs [\<mapsto>] [Suc ?k ..< Suc ?k + length (nonNull cs)])" by blast
    then have i: "uu_rowMetaDataByNode q = (uu_rowMetaDataByNode p)
        (nonNull (Some c # cs) [\<mapsto>] [?k ..< ?k + length (nonNull (Some c # cs))])"
      unfolding upt idx by (simp del: upt_Suc)
    from ih have "uu_rowMetaDatas q =
        uu_rowMetaDatas ?p' @ [Suc ?k ..< Suc ?k + length (nonNull cs)]" by blast
    then have r: "uu_rowMetaDatas q =
        uu_rowMetaDatas p @ [?k ..< ?k + length (nonNull (Some c # cs))]"
      unfolding upt rows by (simp del: upt_Suc)
    from o i r show ?thesis unfolding Some by (intro conjI)
  qed
qed

text \<open>
  The function that \<^verbatim>\<open>__applyRoot\<close> queues, run on an empty dictionary and an
  empty row array for the root of a tree, sets the data model up. What it leaves
  is, in the row objects' nodes and child rows, in the dictionary and in the rows,
  the expansion of a root row without children.
\<close>

lemma applyRootFn_consistent:
  assumes t: "tree insp R" and f: "forward p0"
    and e: "uu_rowMetaDataByNode p0 = Map.empty" and r0: "uu_rowMetaDatas p0 = []"
    and res: "applyRootFn insp R p0 = (Inr (), q)"
  shows "consistent insp R q"
proof -
  let ?k = "length (objects p0)"
  let ?ns = "nonNull (insp_getChildrenOf insp R)"
  let ?kids = "[Suc ?k ..< Suc ?k + length ?ns]"
  have can: "insp_canHaveChildren insp (Some R)"
  proof (rule ccontr)
    assume "\<not> insp_canHaveChildren insp (Some R)"
    then have "fst (applyRootFn insp R p0) = Inl RootMustBeAbleToHaveChildren"
      by (simp add: applyRootFn_def uu_createRowMetaData_def setRow_def Let_def)
    with res show False by simp
  qed
  define pb where "pb = snd (applyRootFn_begin insp R p0)"
  define root where "root = \<lparr>node = Some R, level = - 1, canHaveChildren = Some True,
      childrenChangeBinding = Some (length (bindingsCreated p0)), childRowMetas = Some []\<rparr>"
  have b: "applyRootFn_begin insp R p0 = (Inr ?k, pb)"
    unfolding pb_def using can
    by (simp add: applyRootFn_begin_def uu_createRowMetaData_def setRow_def
        createChildrenChangeBinding_def u_getNodeMetaData_def Let_def)
  have ob: "objects pb = objects p0 @ [root]"
    and ib: "uu_rowMetaDataByNode pb = [R \<mapsto> ?k]"
    and rb: "uu_rowMetaDatas pb = []"
    unfolding pb_def root_def using can e r0
    by (simp_all add: applyRootFn_begin_def uu_createRowMetaData_def setRow_def
        createChildrenChangeBinding_def u_getNodeMetaData_def Let_def)
  from res have "applyRootFn_rest insp R ?k pb = (Inr (), q)"
    unfolding applyRootFn_split b by simp
  then obtain q' where loop: "insertChildRows_loop insp ?k (insp_getChildrenOf insp R) pb = (Inr (), q')"
    and q: "q = fireChangeSize q'"
    by (auto simp: applyRootFn_rest_def split: prod.splits sum.splits)
  have kb: "?k < length (objects pb)" by (simp add: ob)
  have cb: "childRowMetas (objects pb ! ?k) = Some []" by (simp add: ob root_def)
  from insertChildRows_loop_eq [OF loop kb cb]
  have oq: "objects q' = (objects p0 @ [root] @ newRows insp (- 1) ?ns)
        [?k := root\<lparr>childRowMetas := Some ?kids\<rparr>]"
    and iq: "uu_rowMetaDataByNode q' = [R \<mapsto> ?k](?ns [\<mapsto>] ?kids)"
    and rq: "uu_rowMetaDatas q' = ?kids"
    by (simp_all add: ob ib rb)
  define pr where "pr = pb\<lparr>objects := objects p0 @ [root\<lparr>childRowMetas := None\<rparr>]\<rparr>"
  have opr: "objects pr = objects p0 @ [root\<lparr>childRowMetas := None\<rparr>]"
    and ipr: "uu_rowMetaDataByNode pr = [R \<mapsto> ?k]"
    and rpr: "uu_rowMetaDatas pr = []"
    by (simp_all add: pr_def ib rb)
  have lpr: "length (objects pr) = Suc ?k" by (simp add: opr)
  have idx: "uu_rowMetaDataByNode pr R = Some ?k" by (simp add: ipr)
  have col: "childRowMetas (objects pr ! ?k) = None" by (simp add: opr)
  have cpr: "consistent insp R pr"
  proof (rule consistentI)
    fix x r assume "uu_rowMetaDataByNode pr x = Some r"
    then have "x = R" "r = ?k" by (simp_all add: ipr split: if_splits)
    then show "r < length (objects pr) \<and> node (objects pr ! r) = Some x"
      by (simp add: opr root_def)
  next
    fix r assume "r \<in> set (uu_rowMetaDatas pr)"
    then show "r < length (objects pr)" by (simp add: rpr)
  next
    show "forward pr"
      unfolding forward_def
    proof (intro allI impI ballI)
      fix r cs c
      assume a: "r < length (objects pr) \<and> childRowMetas (objects pr ! r) = Some cs"
        and c: "c \<in> set cs"
      from a col have "r \<noteq> ?k" by auto
      with a have r: "r < ?k" by (simp add: lpr)
      with a have "childRowMetas (objects p0 ! r) = Some cs" by (simp add: opr nth_append)
      with f r c have "r < c \<and> c < ?k" unfolding forward_def by blast
      then show "r < c \<and> c < length (objects pr)" by (simp add: lpr)
    qed
  next
    fix x r cs c
    assume "uu_rowMetaDataByNode pr x = Some r" and cs: "childRowMetas (objects pr ! r) = Some cs"
    then have "r = ?k" by (simp add: ipr split: if_splits)
    with cs col show "\<exists>z. node (objects pr ! c) = Some z \<and> uu_rowMetaDataByNode pr z = Some c \<and>
        insp_getParentOf insp z = Some x" by simp
  next
    fix z c assume "uu_rowMetaDataByNode pr z = Some c" and "z \<noteq> R"
    then show "\<exists>x r cs. insp_getParentOf insp z = Some x \<and> uu_rowMetaDataByNode pr x = Some r \<and>
        childRowMetas (objects pr ! r) = Some cs \<and> c \<in> set cs"
      by (simp add: ipr split: if_splits)
  qed
  let ?E = "expanded insp R ?k pr"
  from t cpr idx col have cE: "consistent insp R ?E" by (rule consistent_expanded)
  have lE: "length (objects ?E) = Suc ?k + length ?ns" by (simp add: expanded_length lpr)
  have lq: "length (objects q') = Suc ?k + length ?ns" by (simp add: oq newRows_def)
  have same: "\<And>a. a < Suc ?k + length ?ns \<Longrightarrow>
      node (objects q' ! a) = node (objects ?E ! a) \<and>
      childRowMetas (objects q' ! a) = childRowMetas (objects ?E ! a)"
  proof -
    fix a assume a: "a < Suc ?k + length ?ns"
    consider (old) "a < ?k" | (root) "a = ?k" | (new) j where "j < length ?ns" "a = Suc ?k + j"
    proof -
      assume 1: "a < ?k \<Longrightarrow> thesis" and 2: "a = ?k \<Longrightarrow> thesis"
        and 3: "\<And>j. j < length ?ns \<Longrightarrow> a = Suc ?k + j \<Longrightarrow> thesis"
      show thesis
      proof (cases "a \<le> ?k")
        case True
        with 1 2 show thesis by (cases "a = ?k") simp_all
      next
        case False
        with a have "a - Suc ?k < length ?ns" "a = Suc ?k + (a - Suc ?k)" by simp_all
        then show thesis by (rule 3)
      qed
    qed
    then show "node (objects q' ! a) = node (objects ?E ! a) \<and>
      childRowMetas (objects q' ! a) = childRowMetas (objects ?E ! a)"
    proof cases
      case old
      then have "a < length (objects pr)" "a \<noteq> ?k" by (simp_all add: lpr)
      then have "node (objects ?E ! a) = node (objects pr ! a)"
        "childRowMetas (objects ?E ! a) = childRowMetas (objects pr ! a)"
        by (simp_all add: expanded_old_node expanded_old_children)
      with old show ?thesis by (simp add: oq opr nth_append)
    next
      case root
      have "node (objects ?E ! ?k) = node (objects pr ! ?k)"
        by (rule expanded_old_node) (simp add: lpr)
      moreover have "childRowMetas (objects ?E ! ?k) = Some ?kids"
        using expanded_rm_children [of ?k pr insp R] by (simp add: lpr)
      ultimately show ?thesis unfolding root by (simp add: oq opr root_def)
    next
      case new
      from expanded_new_row [OF new(1), of ?k pr]
      have "node (objects ?E ! (Suc ?k + j)) = Some (?ns ! j)"
        "childRowMetas (objects ?E ! (Suc ?k + j)) = None" by (simp_all add: lpr)
      with new show ?thesis by (simp add: oq nth_append nth_newRows mkRow_def)
    qed
  qed
  have iE: "uu_rowMetaDataByNode ?E = [R \<mapsto> ?k](?ns [\<mapsto>] ?kids)"
    by (simp add: expanded_def Let_def lpr ipr)
  have rE: "uu_rowMetaDatas ?E = ?kids"
    by (simp add: expanded_def Let_def lpr rpr)
  have "keeps ?E q'"
    unfolding keeps_def using same by (simp add: lE lq iE iq rE rq)
  then have "consistent insp R q'" using cE by (rule consistent_keeps)
  with keeps_fireChangeSize [of q'] show ?thesis unfolding q by (rule consistent_keeps)
qed

subsection \<open>Every state that is reached has the data model\<close>

text \<open>Every queued function but that of \<^verbatim>\<open>__applyRoot\<close> keeps the data model,
  and so does the method that queues it on an empty queue.\<close>

lemma call_consistent:
  assumes t: "tree insp R" and c: "consistent insp R p"
    and fn: "\<And>v. fn \<noteq> ApplyRootFn v"
    and res: "call insp fn p = Some (e, q)"
  shows "consistent insp R q"
proof (cases fn)
  case (ApplyRootFn v)
  with fn [of v] show ?thesis by simp
next
  case (ExpandNodeFn n)
  with res have "q = snd (u_expandNode insp n p)" by auto
  with u_expandNode_consistent [OF t c, of n] show ?thesis by simp
next
  case (CollapseNodeFn n)
  with res have "u_collapseNode n p = Some (e, q)" by simp
  with t c show ?thesis by (rule u_collapseNode_consistent)
next
  case (RefreshNodeChildrenFn n)
  with res have r: "refreshNodeChildrenFn insp n p = Some (e, q)" by simp
  then obtain e1 p1 where 1: "u_collapseNode n p = Some (e1, p1)"
    by (auto simp: refreshNodeChildrenFn_def split: option.splits)
  from t c 1 have c1: "consistent insp R p1" by (rule u_collapseNode_consistent)
  show ?thesis
  proof (cases e1)
    case (Inl x)
    with r 1 have "q = p1" by (simp add: refreshNodeChildrenFn_def)
    with c1 show ?thesis by simp
  next
    case (Inr y)
    obtain e2 p2 where 2: "u_expandNode insp n p1 = (e2, p2)" by force
    from u_expandNode_consistent [OF t c1, of n] 2 have c2: "consistent insp R p2" by simp
    from r 1 2 Inr have "q = p2 \<or> q = fireChangeSize p2"
      by (cases e2) (simp_all add: refreshNodeChildrenFn_def)
    with c2 keeps_fireChangeSize [of p2] show ?thesis by (auto intro: consistent_keeps)
  qed
next
  case (RevealNodeFn n)
  with res have "revealNodeFn insp n p = Some (e, q)" by simp
  then have "\<exists>as. q = snd (revealNode_loop insp as p)"
    by (cases "getPathToNode insp n")
      (auto simp: revealNodeFn_def falsy_array_def intro: exI [of _ "the (getPathToNode insp n)"])
  then obtain as where "q = snd (revealNode_loop insp as p)" by blast
  with revealNode_loop_consistent [OF t c, of as] show ?thesis by simp
qed

lemma queue_consistent:
  assumes t: "tree insp R" and c: "consistent insp R (proj s)" and q0: "uu_queue s = []"
    and fn: "\<And>v. fn \<noteq> ApplyRootFn v"
    and res: "queue insp fn s = Some (Inr (), s')"
  shows "consistent insp R (proj s') \<and> uu_queue s' = []"
proof (cases "call insp fn (proj s)")
  case None
  with res queue_first [OF q0, of insp fn] show ?thesis by simp
next
  case (Some a)
  obtain e p1 where a: "a = (e, p1)" by (cases a)
  from t c fn Some [unfolded a] have c1: "consistent insp R p1" by (rule call_consistent)
  show ?thesis
  proof (cases e)
    case (Inl x)
    with res queue_first [OF q0, of insp fn] Some a show ?thesis by simp
  next
    case (Inr y)
    with res queue_first [OF q0, of insp fn] Some a
    have "s' = s\<lparr>proj := p1, uu_queue := [], uu_promiseQueueEmpty := None\<rparr>" by simp
    with c1 show ?thesis by simp
  qed
qed

text \<open>\<^verbatim>\<open>__applyRoot\<close> with the root of a tree, on an empty queue: the data model
  of that tree. Without an old root the dictionary is not emptied, so it has to be
  empty already, as it is in a new data source.\<close>

lemma uu_applyRoot_consistent:
  assumes t: "tree insp R" and f: "forward (proj s0)" and q0: "uu_queue s0 = []"
    and e: "old = None \<Longrightarrow> uu_rowMetaDataByNode (proj s0) = Map.empty"
    and res: "uu_applyRoot insp (Some R) old s0 = Some (Inr (), s)"
  shows "consistent insp R (proj s) \<and> uu_queue s = []"
proof -
  define p2 where "p2 = (case old of None \<Rightarrow> (proj s0)\<lparr>uu_rowMetaDatas := []\<rparr>
      | Some x \<Rightarrow> (proj s0)\<lparr>uu_rowMetaDataByNode := Map.empty, uu_rowMetaDatas := []\<rparr>)"
  define s2 where "s2 = s0\<lparr>proj := p2\<rparr>"
  have o2: "objects p2 = objects (proj s0)" by (simp add: p2_def split: option.splits)
  from f have f2: "forward p2" unfolding forward_def o2 .
  have i2: "uu_rowMetaDataByNode p2 = Map.empty"
    using e by (cases old) (simp_all add: p2_def)
  have r2: "uu_rowMetaDatas p2 = []" by (simp add: p2_def split: option.splits)
  have unf: "uu_applyRoot insp (Some R) old s0 =
      (case queue insp (ApplyRootFn R) s2 of
         None \<Rightarrow> None
       | Some (Inl e, s3) \<Rightarrow> Some (Inl e, s3)
       | Some (Inr u, s3) \<Rightarrow> Some (Inr (), s3\<lparr>proj := fireChangeSize (proj s3)\<rparr>))"
    by (cases old) (simp_all add: uu_applyRoot_def s2_def p2_def Let_def for_in_def)
  have q2: "uu_queue s2 = []" by (simp add: s2_def q0)
  obtain e1 p1 where a: "applyRootFn insp R p2 = (e1, p1)" by force
  have pr2: "proj s2 = p2" by (simp add: s2_def)
  show ?thesis
  proof (cases e1)
    case (Inl x)
    with res a show ?thesis unfolding unf queue_first [OF q2] by (simp add: pr2)
  next
    case (Inr y)
    with a have a': "applyRootFn insp R p2 = (Inr (), p1)" by simp
    from t f2 i2 r2 a' have c1: "consistent insp R p1" by (rule applyRootFn_consistent)
    from res a' have "proj s = fireChangeSize p1 \<and> uu_queue s = []"
      unfolding unf queue_first [OF q2] by (auto simp: pr2)
    with c1 keeps_fireChangeSize [of p1] show ?thesis by (auto intro: consistent_keeps)
  qed
qed

text \<open>Every state that the data source reaches has the data model of a tree, and
  an empty queue.\<close>

lemma reachable_consistent:
  "reachable insp R s \<Longrightarrow> tree insp R \<and> consistent insp R (proj s) \<and> uu_queue s = []"
proof (induction rule: reachable.induct)
  case (setRoot R s)
  have "forward (proj construct)" "uu_queue construct = []"
    "uu_rowMetaDataByNode (proj construct) = Map.empty"
    by (simp_all add: construct_def forward_def)
  from uu_applyRoot_consistent [OF setRoot(1) this(1,2) this(3) setRoot(2)] setRoot(1)
  show ?case by simp
next
  case (setRoot_again R0 s0 R s)
  from setRoot_again.IH have "forward (proj s0)" "uu_queue s0 = []"
    by (blast intro: consistent_forward)+
  from uu_applyRoot_consistent [OF setRoot_again(2) this _ setRoot_again(3)] setRoot_again(2)
  show ?case by simp
next
  case (expandNode R s n s')
  then have "queue insp (ExpandNodeFn n) s = Some (Inr (), s')" by (simp add: expandNode_def)
  with expandNode.IH queue_consistent [of insp R s "ExpandNodeFn n" s'] show ?case by simp
next
  case (collapseNode R s n s')
  then have "queue insp (CollapseNodeFn n) s = Some (Inr (), s')" by (simp add: collapseNode_def)
  with collapseNode.IH queue_consistent [of insp R s "CollapseNodeFn n" s'] show ?case by simp
next
  case (refreshNodeChildren R s n s')
  then have "queue insp (RefreshNodeChildrenFn n) s = Some (Inr (), s')"
    by (simp add: refreshNodeChildren_def)
  with refreshNodeChildren.IH queue_consistent [of insp R s "RefreshNodeChildrenFn n" s']
  show ?case by simp
next
  case (revealNode R s n s')
  then have "queue insp (RevealNodeFn n) s = Some (Inr (), s')" by (simp add: revealNode_def)
  with revealNode.IH queue_consistent [of insp R s "RevealNodeFn n" s'] show ?case by simp
qed

text \<open>The states of the small tree are reached.\<close>

lemma ex_reachable: "reachable ex_insp 10 ex_rooted \<and> reachable ex_insp 10 ex_expanded"
proof -
  from ex_tree ex_root have "reachable ex_insp 10 ex_rooted" by (rule reachable.setRoot)
  moreover from this ex_expand have "reachable ex_insp 10 ex_expanded"
    by (rule reachable.expandNode)
  ultimately show ?thesis ..
qed

subsection \<open>The round trip\<close>

lemma round_trip_when_fresh:
  assumes q: "uu_queue s = []"
    and idx: "uu_rowMetaDataByNode (proj s) n = Some rm"
    and can: "canHaveChildren (objects (proj s) ! rm) = Some True"
    and col: "childRowMetas (objects (proj s) ! rm) = None"
    and refs: "\<forall>x r. uu_rowMetaDataByNode (proj s) x = Some r \<longrightarrow> r < length (objects (proj s))"
    and rows: "\<forall>r \<in> set (uu_rowMetaDatas (proj s)). r < length (objects (proj s))"
    and fresh: "\<forall>c. Some c \<in> set (insp_getChildrenOf insp n) \<longrightarrow>
        uu_rowMetaDataByNode (proj s) c = None"
  shows "\<exists>s1 s2 kids b.
     expandNode insp n s = Some (Inr (), s1) \<and>
     childRowMetas (objects (proj s1) ! rm) = Some kids \<and>
     map (\<lambda>c. node (objects (proj s1) ! c)) kids = map Some (nonNull (insp_getChildrenOf insp n)) \<and>
     uu_rowMetaDatas (proj s1) =
       take (nat (indexOf (uu_rowMetaDatas (proj s)) rm + 1)) (uu_rowMetaDatas (proj s)) @ kids @
       drop (nat (indexOf (uu_rowMetaDatas (proj s)) rm + 1)) (uu_rowMetaDatas (proj s)) \<and>
     childrenChangeBinding (objects (proj s1) ! rm) = Some b \<and>
     b = length (bindingsCreated (proj s)) \<and>
     bindingsCreated (proj s1) = bindingsCreated (proj s) @ [n] \<and>
     bindingsDisposed (proj s1) = bindingsDisposed (proj s) \<and>
     collapseNode insp n s1 = Some (Inr (), s2) \<and>
     uu_rowMetaDatas (proj s2) = uu_rowMetaDatas (proj s) \<and>
     uu_rowMetaDataByNode (proj s2) = uu_rowMetaDataByNode (proj s) \<and>
     take (length (objects (proj s))) (objects (proj s2)) =
       (objects (proj s))[rm := (objects (proj s) ! rm)\<lparr>childrenChangeBinding := None\<rparr>] \<and>
     (\<forall>c \<in> set kids. c \<notin> set (uu_rowMetaDatas (proj s2)) \<and>
        c \<notin> ran (uu_rowMetaDataByNode (proj s2))) \<and>
     bindingsDisposed (proj s2) = bindingsDisposed (proj s) @ [b] \<and>
     uu_queue s2 = []"
proof -
  let ?p = "proj s"
  let ?ns = "nonNull (insp_getChildrenOf insp n)"
  let ?k = "length (objects ?p)"
  let ?kids = "[?k ..< ?k + length ?ns]"
  let ?p1 = "expanded insp n rm ?p"
  let ?s1 = "s\<lparr>proj := ?p1, uu_queue := [], uu_promiseQueueEmpty := None\<rparr>"
  let ?p2 = "?p\<lparr>objects := (objects ?p)[rm := (objects ?p ! rm)\<lparr>childrenChangeBinding := None\<rparr>] @
            newRows insp (level (objects ?p ! rm)) ?ns,
         bindingsCreated := bindingsCreated ?p @ [n],
         bindingsDisposed := bindingsDisposed ?p @ [length (bindingsCreated ?p)],
         changeSize := changeSize ?p @
           [length (uu_rowMetaDatas ?p) + length ?ns, length (uu_rowMetaDatas ?p)]\<rparr>"
  let ?s2 = "?s1\<lparr>proj := ?p2, uu_queue := [], uu_promiseQueueEmpty := None\<rparr>"
  from refs idx have ref: "rm < ?k" by blast
  have e: "u_expandNode insp n ?p = (Inr (), ?p1)"
    by (rule u_expandNode_collapsed [OF idx can col ref])
  have 1: "expandNode insp n s = Some (Inr (), ?s1)"
    unfolding expandNode_def by (rule queue_first_returns [OF q]) (simp add: e)
  have c: "u_collapseNode n ?p1 = Some (Inr (), ?p2)"
    by (rule u_collapseNode_expanded [OF idx col ref rows fresh])
  have 2: "collapseNode insp n ?s1 = Some (Inr (), ?s2)"
    unfolding collapseNode_def by (rule queue_first_returns) (simp_all add: c)
  have rm1: "objects ?p1 ! rm = (objects ?p ! rm)\<lparr>childrenChangeBinding := Some (length (bindingsCreated ?p)),
        childRowMetas := Some ?kids\<rparr>"
    using ref by (simp add: expanded_def Let_def nth_append)
  have nodes: "map (\<lambda>c. node (objects ?p1 ! c)) ?kids = map Some ?ns"
  proof (rule nth_equalityI)
    show "length (map (\<lambda>c. node (objects ?p1 ! c)) ?kids) = length (map Some ?ns)" by simp
  next
    fix j assume "j < length (map (\<lambda>c. node (objects ?p1 ! c)) ?kids)"
    then have j: "j < length ?ns" by simp
    then show "map (\<lambda>c. node (objects ?p1 ! c)) ?kids ! j = map Some ?ns ! j"
      by (simp add: expanded_def Let_def nth_append nth_newRows mkRow_def)
  qed
  have gone: "\<forall>c \<in> set ?kids. c \<notin> set (uu_rowMetaDatas ?p) \<and> c \<notin> ran (uu_rowMetaDataByNode ?p)"
  proof (intro ballI conjI)
    fix c assume c: "c \<in> set ?kids"
    with rows show "c \<notin> set (uu_rowMetaDatas ?p)" by auto
    show "c \<notin> ran (uu_rowMetaDataByNode ?p)"
    proof
      assume "c \<in> ran (uu_rowMetaDataByNode ?p)"
      then obtain x where "uu_rowMetaDataByNode ?p x = Some c" by (auto simp: ran_def)
      with refs have "c < ?k" by blast
      with c show False by simp
    qed
  qed
  have old: "take ?k (objects ?p2) = (objects ?p)[rm := (objects ?p ! rm)\<lparr>childrenChangeBinding := None\<rparr>]"
    by simp
  show ?thesis
    apply (rule exI [of _ ?s1], rule exI [of _ ?s2], rule exI [of _ ?kids],
        rule exI [of _ "length (bindingsCreated ?p)"])
    using 1 2 rm1 nodes gone old
    by (simp add: expanded_def Let_def)
qed

text \<open>
  C8. In every state with the data model of a tree and an empty queue, which
  every state is that the data source reaches (lemma \<open>reachable_consistent\<close>):
  for a node in the dictionary whose row object can have children and has no
  \<^verbatim>\<open>childRowMetas\<close>, \<^verbatim>\<open>expandNode\<close> splices the new child rows, in the
  order of \<^verbatim>\<open>getChildrenOf\<close>, behind the row of the node and creates a
  binding, and \<^verbatim>\<open>collapseNode\<close> after it gives back the row array and the
  dictionary exactly: the node has the row object it had, the row objects that
  were there are unchanged but for the binding of the node's, which is gone, the
  new row objects are in neither structure, and the binding that the expansion
  created is disposed.
\<close>

theorem expand_then_collapse_round_trip:
  assumes t: "tree insp R"
    and c: "consistent insp R (proj s)"
    and q: "uu_queue s = []"
    and idx: "uu_rowMetaDataByNode (proj s) n = Some rm"
    and can: "canHaveChildren (objects (proj s) ! rm) = Some True"
    and col: "childRowMetas (objects (proj s) ! rm) = None"
  shows "\<exists>s1 s2 kids b.
     expandNode insp n s = Some (Inr (), s1) \<and>
     childRowMetas (objects (proj s1) ! rm) = Some kids \<and>
     map (\<lambda>c. node (objects (proj s1) ! c)) kids = map Some (nonNull (insp_getChildrenOf insp n)) \<and>
     uu_rowMetaDatas (proj s1) =
       take (nat (indexOf (uu_rowMetaDatas (proj s)) rm + 1)) (uu_rowMetaDatas (proj s)) @ kids @
       drop (nat (indexOf (uu_rowMetaDatas (proj s)) rm + 1)) (uu_rowMetaDatas (proj s)) \<and>
     childrenChangeBinding (objects (proj s1) ! rm) = Some b \<and>
     b = length (bindingsCreated (proj s)) \<and>
     bindingsCreated (proj s1) = bindingsCreated (proj s) @ [n] \<and>
     bindingsDisposed (proj s1) = bindingsDisposed (proj s) \<and>
     collapseNode insp n s1 = Some (Inr (), s2) \<and>
     uu_rowMetaDatas (proj s2) = uu_rowMetaDatas (proj s) \<and>
     uu_rowMetaDataByNode (proj s2) = uu_rowMetaDataByNode (proj s) \<and>
     take (length (objects (proj s))) (objects (proj s2)) =
       (objects (proj s))[rm := (objects (proj s) ! rm)\<lparr>childrenChangeBinding := None\<rparr>] \<and>
     (\<forall>c \<in> set kids. c \<notin> set (uu_rowMetaDatas (proj s2)) \<and>
        c \<notin> ran (uu_rowMetaDataByNode (proj s2))) \<and>
     bindingsDisposed (proj s2) = bindingsDisposed (proj s) @ [b] \<and>
     uu_queue s2 = []"
proof -
  from c have refs: "\<forall>x r. uu_rowMetaDataByNode (proj s) x = Some r \<longrightarrow>
      r < length (objects (proj s))"
    by (blast dest: consistent_refs)
  from c have rows: "\<forall>r \<in> set (uu_rowMetaDatas (proj s)). r < length (objects (proj s))"
    by (blast dest: consistent_rows)
  from t c idx col have fresh: "\<forall>c. Some c \<in> set (insp_getChildrenOf insp n) \<longrightarrow>
      uu_rowMetaDataByNode (proj s) c = None"
    by (blast intro: collapsed_children_fresh)
  show ?thesis by (rule round_trip_when_fresh [OF q idx can col refs rows fresh])
qed

theorem expand_then_collapse_round_trip_witness:
  "uu_queue ex_rooted = [] \<and>
   uu_rowMetaDataByNode (proj ex_rooted) 11 = Some 1 \<and>
   canHaveChildren (objects (proj ex_rooted) ! 1) = Some True \<and>
   childRowMetas (objects (proj ex_rooted) ! 1) = None \<and>
   insp_getChildrenOf ex_insp 11 = [Some 13, Some 14] \<and>
   uu_rowMetaDataByNode (proj ex_rooted) 13 = None \<and>
   uu_rowMetaDataByNode (proj ex_rooted) 14 = None \<and>
   expandNode ex_insp 11 ex_rooted = Some (Inr (), ex_expanded) \<and>
   uu_rowMetaDatas (proj ex_expanded) = [1, 3, 4, 2] \<and>
   (\<exists>s2. collapseNode ex_insp 11 ex_expanded = Some (Inr (), s2) \<and>
      uu_rowMetaDatas (proj s2) = [1, 2] \<and>
      uu_rowMetaDataByNode (proj s2) = [10 \<mapsto> 0, 11 \<mapsto> 1, 12 \<mapsto> 2] \<and>
      take 3 (objects (proj s2)) = objects (proj ex_rooted) \<and>
      bindingsDisposed (proj s2) = [1] \<and> uu_queue s2 = [])"
proof -
  have q: "uu_queue ex_rooted = []"
    and idx: "uu_rowMetaDataByNode (proj ex_rooted) 11 = Some 1"
    and can: "canHaveChildren (objects (proj ex_rooted) ! 1) = Some True"
    and col: "childRowMetas (objects (proj ex_rooted) ! 1) = None"
    by (simp_all add: ex_rooted_def mkRow_def)
  have kids: "insp_getChildrenOf ex_insp 11 = [Some 13, Some 14]"
    by (simp add: ex_insp_def)
  have none: "uu_rowMetaDataByNode (proj ex_rooted) 13 = None"
    "uu_rowMetaDataByNode (proj ex_rooted) 14 = None"
    by (simp_all add: ex_rooted_def)
  from expand_then_collapse_round_trip [OF ex_tree ex_consistent q idx can col]
  obtain s1 s2 ks b where r:
    "expandNode ex_insp 11 ex_rooted = Some (Inr (), s1)"
    "collapseNode ex_insp 11 s1 = Some (Inr (), s2)"
    "uu_rowMetaDatas (proj s2) = uu_rowMetaDatas (proj ex_rooted)"
    "uu_rowMetaDataByNode (proj s2) = uu_rowMetaDataByNode (proj ex_rooted)"
    "take (length (objects (proj ex_rooted))) (objects (proj s2)) =
       (objects (proj ex_rooted))[1 := (objects (proj ex_rooted) ! 1)\<lparr>childrenChangeBinding := None\<rparr>]"
    "b = length (bindingsCreated (proj ex_rooted))"
    "bindingsDisposed (proj s2) = bindingsDisposed (proj ex_rooted) @ [b]"
    "uu_queue s2 = []"
    by blast
  from r(1) ex_expand have s1: "s1 = ex_expanded" by simp
  have x: "uu_rowMetaDatas (proj ex_expanded) = [1, 3, 4, 2]"
    by (simp add: ex_expanded_def)
  from r(2) s1 have c: "collapseNode ex_insp 11 ex_expanded = Some (Inr (), s2)" by simp
  from r(3) have rows2: "uu_rowMetaDatas (proj s2) = [1, 2]"
    by (simp add: ex_rooted_def)
  from r(4) have idx2: "uu_rowMetaDataByNode (proj s2) = [10 \<mapsto> 0, 11 \<mapsto> 1, 12 \<mapsto> 2]"
    by (simp add: ex_rooted_def)
  have l3: "length (objects (proj ex_rooted)) = 3"
    by (simp add: ex_rooted_def)
  have same: "(objects (proj ex_rooted))
      [1 := (objects (proj ex_rooted) ! 1)\<lparr>childrenChangeBinding := None\<rparr>] =
      objects (proj ex_rooted)"
    by (simp add: ex_rooted_def mkRow_def)
  from r(5) have obj2: "take 3 (objects (proj s2)) = objects (proj ex_rooted)"
    unfolding l3 same .
  from r(6,7) have disp: "bindingsDisposed (proj s2) = [1]"
    by (simp add: ex_rooted_def)
  note c rows2 idx2 obj2 disp r(8)
  with q idx can col kids none ex_expand x show ?thesis by blast
qed

end
